theory Spec2Isabelle
  imports Complex_Main "HOL-Library.Multiset" "HOL-Library.AList"
    "HOL-Library.Char_ord" "HOL-Library.List_Lexorder"
begin

section \<open>Data model (models.go)\<close>

text \<open>
  A Go \<^verbatim>\<open>float64\<close> is modelled by its IEEE 754 class: not-a-number, one of the two
  infinities, or a finite number (both zeros are \<open>Finite 0\<close>). The only operation the
  tracker applies to a fetched price is the comparison \<^verbatim>\<open>price > 0\<close>; it is false
  whenever an operand is NaN.
\<close>

datatype float64 = NaN | PosInf | NegInf | Finite real

fun f64_gt :: "float64 \<Rightarrow> float64 \<Rightarrow> bool" where
  "f64_gt NaN _ = False"
| "f64_gt _ NaN = False"
| "f64_gt PosInf PosInf = False"
| "f64_gt PosInf _ = True"
| "f64_gt NegInf _ = False"
| "f64_gt (Finite x) PosInf = False"
| "f64_gt (Finite x) NegInf = True"
| "f64_gt (Finite x) (Finite y) = (y < x)"

definition finite_positive :: "float64 \<Rightarrow> bool" where
  "finite_positive v = (case v of Finite x \<Rightarrow> 0 < x | _ \<Rightarrow> False)"

text \<open>A \<^verbatim>\<open>time.Time\<close> is an instant, counted in nanoseconds; instants compare
  chronologically.\<close>

type_synonym time = int

record Product =
  ID :: string
  Name :: string
  URL :: string

text \<open>\<^verbatim>\<open>PriceEntry.ID\<close> is the row id of the entry; it is called \<open>EntryID\<close> here
  because \<open>ID\<close> is the field of \<open>Product\<close>.\<close>

record PriceEntry =
  EntryID :: int
  ProductID :: string
  Price :: float64
  Timestamp :: time

text \<open>\<^verbatim>\<open>ProductWithLatestPrice\<close> embeds \<^verbatim>\<open>Product\<close>; the two pointer fields are
  \<open>None\<close> when nil.\<close>

record ProductWithLatestPrice = Product +
  LatestPrice :: "float64 option"
  LastUpdated :: "time option"

section \<open>The store (database.go)\<close>

text \<open>
  The SQLite file holds the two tables of \<^verbatim>\<open>createTables\<close>. A row of \<^verbatim>\<open>products\<close> is
  a \<open>Product\<close> (the column \<^verbatim>\<open>created_at\<close> is never read); \<^verbatim>\<open>id\<close> is its primary key.
  A row of \<^verbatim>\<open>price_entries\<close> is a \<open>PriceEntry\<close>; \<open>seq\<close> is the largest row id handed
  out so far (\<^verbatim>\<open>AUTOINCREMENT\<close>). Rows are kept in insertion order.

  \<^verbatim>\<open>price_entries\<close> declares \<^verbatim>\<open>FOREIGN KEY (product_id) REFERENCES products (id)\<close>.
  SQLite checks foreign keys only on a connection on which
  \<^verbatim>\<open>PRAGMA foreign_keys = ON\<close> was issued; \<open>foreign_keys\<close> is that setting of the
  connection. \<^verbatim>\<open>NewDatabase\<close> opens the file by its bare path and \<^verbatim>\<open>createTables\<close> runs
  four \<^verbatim>\<open>CREATE\<close> statements only, so the setting stays at the engine's default, off.
\<close>

record Database =
  products_table :: "Product list"
  price_entries_table :: "PriceEntry list"
  seq :: int
  foreign_keys :: bool

text \<open>A Go \<^verbatim>\<open>error\<close>: either what the SQL driver reported, or the error that
  \<^verbatim>\<open>PriceTracker.GetPriceHistory\<close> builds with \<^verbatim>\<open>fmt.Errorf\<close>.\<close>

datatype error = DriverError string | ProductNotFound string

fun Error :: "error \<Rightarrow> string" where
  "Error (DriverError m) = m"
| "Error (ProductNotFound productID) = ''product not found: '' @ productID"

text \<open>
  Every method below takes the verdict \<open>io\<close> of the driver for its one statement:
  \<open>None\<close> when the statement ran, \<open>Some m\<close> when \<^verbatim>\<open>Exec\<close>, \<^verbatim>\<open>Query\<close> or \<^verbatim>\<open>Scan\<close>
  returned an error with message \<open>m\<close> (a failed statement changes nothing).
\<close>

text \<open>The store that \<^verbatim>\<open>createTables\<close> makes of a new file.\<close>

definition createTables :: "Database" where
  "createTables =
     \<lparr>products_table = [], price_entries_table = [], seq = 0, foreign_keys = False\<rparr>"

text \<open>\<^verbatim>\<open>INSERT OR REPLACE INTO products (id, name, url)\<close>: a row with the same primary
  key is deleted before the new row is inserted.\<close>

definition InsertProduct :: "Database \<Rightarrow> Product \<Rightarrow> string option \<Rightarrow> Database \<times> error option" where
  "InsertProduct d product io =
     (case io of
        Some m \<Rightarrow> (d, Some (DriverError m))
      | None \<Rightarrow>
          (d\<lparr>products_table := filter (\<lambda>q. ID q \<noteq> ID product) (products_table d) @ [product]\<rparr>,
           None))"

text \<open>\<^verbatim>\<open>SELECT id, name, url FROM products ORDER BY name\<close>; text compares bytewise.\<close>

definition GetAllProducts :: "Database \<Rightarrow> string option \<Rightarrow> error + Product list" where
  "GetAllProducts d io =
     (case io of
        Some m \<Rightarrow> Inl (DriverError m)
      | None \<Rightarrow> Inr (sort_key Name (products_table d)))"

text \<open>\<^verbatim>\<open>ORDER BY timestamp DESC\<close>.\<close>

definition order_by_timestamp_desc :: "PriceEntry list \<Rightarrow> PriceEntry list" where
  "order_by_timestamp_desc es = sort_key (\<lambda>e. - Timestamp e) es"

text \<open>\<^verbatim>\<open>LIMIT n\<close>: a negative \<open>n\<close> means no bound.\<close>

definition sql_limit :: "int \<Rightarrow> 'a list \<Rightarrow> 'a list" where
  "sql_limit n rows = (if n < 0 then rows else take (nat n) rows)"

text \<open>
  The subquery \<^verbatim>\<open>pe\<close> of \<^verbatim>\<open>GetProductsWithLatestPrices\<close>. Each partition (the entries of
  one \<^verbatim>\<open>product_id\<close>, newest first) yields one row per entry: the \<^verbatim>\<open>product_id\<close>, the
  \<^verbatim>\<open>FIRST_VALUE\<close> of price and of timestamp in the partition, and the \<^verbatim>\<open>ROW_NUMBER\<close>.
  \<^verbatim>\<open>SELECT DISTINCT\<close> removes duplicate rows.
\<close>

definition partition_rows :: "PriceEntry list \<Rightarrow> string \<Rightarrow> (string \<times> float64 \<times> time \<times> nat) list" where
  "partition_rows es pid =
     (case order_by_timestamp_desc (filter (\<lambda>e. ProductID e = pid) es) of
        [] \<Rightarrow> []
      | first # rest \<Rightarrow>
          map (\<lambda>rn. (pid, Price first, Timestamp first, rn)) [1 ..< Suc (Suc (length rest))])"

definition pe :: "PriceEntry list \<Rightarrow> (string \<times> float64 \<times> time \<times> nat) list" where
  "pe es = remdups (concat (map (partition_rows es) (remdups (map ProductID es))))"

text \<open>\<^verbatim>\<open>products p LEFT JOIN pe ON p.id = pe.product_id AND pe.rn = 1\<close>: one output row
  for each matching row of \<^verbatim>\<open>pe\<close>, and one row with NULL price and timestamp when
  nothing matches.\<close>

definition left_join :: "(string \<times> float64 \<times> time \<times> nat) list \<Rightarrow> Product \<Rightarrow> ProductWithLatestPrice list" where
  "left_join rows p =
     (case filter (\<lambda>(pid, price, ts, rn). ID p = pid \<and> rn = 1) rows of
        [] \<Rightarrow> [Product.extend p \<lparr>LatestPrice = None, LastUpdated = None\<rparr>]
      | ms \<Rightarrow>
          map (\<lambda>(pid, price, ts, rn).
                 Product.extend p \<lparr>LatestPrice = Some price, LastUpdated = Some ts\<rparr>) ms)"

definition GetProductsWithLatestPrices ::
  "Database \<Rightarrow> string option \<Rightarrow> error + ProductWithLatestPrice list" where
  "GetProductsWithLatestPrices d io =
     (case io of
        Some m \<Rightarrow> Inl (DriverError m)
      | None \<Rightarrow>
          Inr (sort_key Name
                 (concat (map (left_join (pe (price_entries_table d))) (products_table d)))))"

text \<open>\<^verbatim>\<open>INSERT INTO price_entries (product_id, price, timestamp)\<close>. The row gets the
  next row id. With foreign keys enforced, a \<^verbatim>\<open>product_id\<close> without a row in
  \<^verbatim>\<open>products\<close> makes the statement fail.\<close>

definition InsertPriceEntry ::
  "Database \<Rightarrow> string \<Rightarrow> float64 \<Rightarrow> time \<Rightarrow> string option \<Rightarrow> Database \<times> error option" where
  "InsertPriceEntry d productID price timestamp io =
     (case io of
        Some m \<Rightarrow> (d, Some (DriverError m))
      | None \<Rightarrow>
          if foreign_keys d \<and> productID \<notin> set (map ID (products_table d))
          then (d, Some (DriverError ''FOREIGN KEY constraint failed''))
          else
            (d\<lparr>price_entries_table := price_entries_table d @
                  [\<lparr>EntryID = seq d + 1, ProductID = productID, Price = price,
                    Timestamp = timestamp\<rparr>],
               seq := seq d + 1\<rparr>,
             None))"

text \<open>\<^verbatim>\<open>SELECT ... FROM price_entries WHERE product_id = ? ORDER BY timestamp DESC LIMIT ?\<close>.\<close>

definition GetPriceHistory ::
  "Database \<Rightarrow> string \<Rightarrow> int \<Rightarrow> string option \<Rightarrow> error + PriceEntry list" where
  "GetPriceHistory d productID limit io =
     (case io of
        Some m \<Rightarrow> Inl (DriverError m)
      | None \<Rightarrow>
          Inr (sql_limit limit
                 (order_by_timestamp_desc
                    (filter (\<lambda>e. ProductID e = productID) (price_entries_table d)))))"

text \<open>\<^verbatim>\<open>SELECT COUNT(*) FROM products WHERE id = ?\<close>; the method returns
  \<^verbatim>\<open>count > 0, err\<close>, and \<^verbatim>\<open>count\<close> is still zero when the scan failed.\<close>

definition ProductExists :: "Database \<Rightarrow> string \<Rightarrow> string option \<Rightarrow> bool \<times> error option" where
  "ProductExists d productID io =
     (case io of
        Some m \<Rightarrow> (False, Some (DriverError m))
      | None \<Rightarrow> (0 < length (filter (\<lambda>p. ID p = productID) (products_table d)), None))"

section \<open>The tracker's registry and read operations (tracker.go)\<close>

text \<open>
  \<^verbatim>\<open>PriceTracker.products\<close> is a Go map from product id to product, kept here as an
  association list with one pair per key. The mutex makes each method below one
  atomic step. What the methods write to the log is left out here; the log lines of a
  round are among its events, further down.
\<close>

record PriceTracker =
  db :: Database
  products :: "(string \<times> Product) list"

text \<open>The loop of \<^verbatim>\<open>loadProducts\<close>: \<^verbatim>\<open>pt.products[product.ID] = product\<close> for each row.\<close>

fun load_loop :: "Product list \<Rightarrow> (string \<times> Product) list \<Rightarrow> (string \<times> Product) list" where
  "load_loop [] m = m"
| "load_loop (product # rest) m = load_loop rest (AList.update (ID product) product m)"

definition loadProducts :: "PriceTracker \<Rightarrow> string option \<Rightarrow> PriceTracker \<times> error option" where
  "loadProducts pt io =
     (case GetAllProducts (db pt) io of
        Inl err \<Rightarrow> (pt, Some err)
      | Inr rows \<Rightarrow> (pt\<lparr>products := load_loop rows (products pt)\<rparr>, None))"

text \<open>\<^verbatim>\<open>NewPriceTracker\<close> only logs a failure of \<^verbatim>\<open>loadProducts\<close>.\<close>

definition NewPriceTracker :: "Database \<Rightarrow> string option \<Rightarrow> PriceTracker" where
  "NewPriceTracker d io = fst (loadProducts \<lparr>db = d, products = []\<rparr> io)"

definition AddProduct :: "PriceTracker \<Rightarrow> Product \<Rightarrow> string option \<Rightarrow> PriceTracker \<times> error option" where
  "AddProduct pt product io =
     (case InsertProduct (db pt) product io of
        (d', Some err) \<Rightarrow> (pt, Some err)
      | (d', None) \<Rightarrow>
          (pt\<lparr>db := d', products := AList.update (ID product) product (products pt)\<rparr>, None))"

definition GetProducts :: "PriceTracker \<Rightarrow> string option \<Rightarrow> ProductWithLatestPrice list" where
  "GetProducts pt io =
     (case GetProductsWithLatestPrices (db pt) io of
        Inl err \<Rightarrow> []
      | Inr ps \<Rightarrow> ps)"

text \<open>\<^verbatim>\<open>PriceTracker.GetPriceHistory\<close>; \<open>io1\<close> is the driver's verdict for the existence
  query and \<open>io2\<close> for the history query.\<close>

definition GetPriceHistory_tracker ::
  "PriceTracker \<Rightarrow> string \<Rightarrow> int \<Rightarrow> string option \<Rightarrow> string option \<Rightarrow> error + PriceEntry list" where
  "GetPriceHistory_tracker pt productID limit io1 io2 =
     (case ProductExists (db pt) productID io1 of
        (exists, Some err) \<Rightarrow> Inl err
      | (exists, None) \<Rightarrow>
          if \<not> exists then Inl (ProductNotFound productID)
          else GetPriceHistory (db pt) productID limit io2)"

section \<open>The HTTP handlers (api.go)\<close>

text \<open>A response is the status code given to \<^verbatim>\<open>writeJSON\<close> and the value it encodes.
  The status codes are those of \<^verbatim>\<open>net/http\<close>; no handler of api.go uses
  \<^verbatim>\<open>StatusInternalServerError\<close>.\<close>

datatype body =
    ProductsJSON "ProductWithLatestPrice list"
  | HistoryJSON string "PriceEntry list" nat
  | ErrorJSON string

record response =
  status :: nat
  payload :: body

definition StatusOK :: nat where "StatusOK = 200"
definition StatusBadRequest :: nat where "StatusBadRequest = 400"
definition StatusNotFound :: nat where "StatusNotFound = 404"
definition StatusInternalServerError :: nat where "StatusInternalServerError = 500"

definition writeJSON :: "nat \<Rightarrow> body \<Rightarrow> response" where
  "writeJSON st data = \<lparr>status = st, payload = data\<rparr>"

definition writeError :: "nat \<Rightarrow> string \<Rightarrow> response" where
  "writeError st message = writeJSON st (ErrorJSON message)"

definition handleGetProducts :: "PriceTracker \<Rightarrow> string option \<Rightarrow> response" where
  "handleGetProducts pt io = writeJSON StatusOK (ProductsJSON (GetProducts pt io))"

text \<open>\<open>limitParam\<close> is what \<^verbatim>\<open>strconv.Atoi\<close> made of the query parameter \<^verbatim>\<open>limit\<close>:
  \<open>None\<close> when the parameter is absent or is not a number.\<close>

definition handleGetPriceHistory ::
  "PriceTracker \<Rightarrow> string \<Rightarrow> int option \<Rightarrow> string option \<Rightarrow> string option \<Rightarrow> response" where
  "handleGetPriceHistory pt productID limitParam io1 io2 =
     (if productID = [] then writeError StatusBadRequest ''Product ID is required''
      else
        let limit = (case limitParam of
                       Some parsedLimit \<Rightarrow> if 0 < parsedLimit then parsedLimit else 50
                     | None \<Rightarrow> 50)
        in case GetPriceHistory_tracker pt productID limit io1 io2 of
             Inl err \<Rightarrow> writeError StatusNotFound (Error err)
           | Inr history \<Rightarrow>
               writeJSON StatusOK (HistoryJSON productID history (length history)))"

section \<open>A tracking round (tracker.go: trackAllProducts, priceWorker)\<close>


text \<open>
  What \<^verbatim>\<open>priceWorker\<close> does with one product once \<^verbatim>\<open>fetchPrice\<close> has returned
  \<open>price\<close>: it builds the entry to put on \<^verbatim>\<open>resultChan\<close> when \<^verbatim>\<open>price > 0\<close>, stamped
  with the reading \<open>now\<close> of the clock, and nothing otherwise. The entry's \<^verbatim>\<open>ID\<close> is
  left at its zero value.
\<close>

definition priceWorker_body :: "Product \<Rightarrow> float64 \<Rightarrow> time \<Rightarrow> PriceEntry option" where
  "priceWorker_body product price now =
     (if f64_gt price (Finite 0)
      then Some \<lparr>EntryID = 0, ProductID = ID product, Price = price, Timestamp = now\<rparr>
      else None)"

definition numWorkers :: nat where
  "numWorkers = 5"

text \<open>Where a worker goroutine stands: at the receive of its \<^verbatim>\<open>range productChan\<close>,
  inside \<^verbatim>\<open>fetchPrice\<close> for a product, at the send of an entry on \<^verbatim>\<open>resultChan\<close>, or
  past \<^verbatim>\<open>wg.Done()\<close>.\<close>

datatype worker = Receiving | Fetching Product | Sending PriceEntry | Exited

datatype log_line =
    LogTracking nat
  | LogFailedToSave string error
  | LogSaved string float64

text \<open>What a round does to its collaborators, in the order it happens: a call of
  \<^verbatim>\<open>fetchPrice\<close> returning (worker, product, value), an entry put on \<^verbatim>\<open>resultChan\<close>
  (worker, entry), a call of \<^verbatim>\<open>InsertPriceEntry\<close> with its result, a log line.\<close>

datatype event =
    Fetched nat Product float64
  | Forwarded nat PriceEntry
  | Inserted PriceEntry "error option"
  | Logged log_line

text \<open>
  The state of one round: the products the sending goroutine has not sent yet, the two
  buffered channels (both made with capacity \<^verbatim>\<open>len(products)\<close>) and whether they are
  closed, the workers, whether the collecting loop of \<^verbatim>\<open>trackAllProducts\<close> has ended,
  the store, and the events so far.
\<close>

record pool =
  capacity :: nat
  unsent :: "Product list"
  productChan :: "Product list"
  productChanClosed :: bool
  workers :: "worker list"
  resultChan :: "PriceEntry list"
  resultChanClosed :: bool
  returned :: bool
  store :: Database
  events :: "event list"

text \<open>
  One atomic action of one goroutine. \<open>FetchReturns i v t\<close> carries the value \<open>v\<close>
  that the call of \<^verbatim>\<open>fetchPrice\<close> returns to worker \<open>i\<close> and the reading \<open>t\<close> of
  \<^verbatim>\<open>time.Now()\<close>; \<open>Collect io\<close> carries the driver's verdict for the insert. The
  actions take any value \<open>v\<close>; \<open>from_fetchPrice\<close>, further down, says of the events of a
  round that every fetched value is one that \<^verbatim>\<open>fetchPrice\<close> computes.
\<close>

datatype action =
    SendProduct
  | CloseProductChan
  | Receive nat
  | FetchReturns nat float64 time
  | SendResult nat
  | WorkerDone nat
  | CloseResultChan
  | Collect "string option"
  | Return

text \<open>\<open>step a s\<close> is the state after action \<open>a\<close>, and \<open>None\<close> when the goroutine
  cannot take that action in \<open>s\<close> (it is elsewhere in its code, or blocked on a
  channel).\<close>

fun step :: "action \<Rightarrow> pool \<Rightarrow> pool option" where
  "step SendProduct s =
     (case unsent s of
        [] \<Rightarrow> None
      | product # rest \<Rightarrow>
          if length (productChan s) < capacity s
          then Some (s\<lparr>unsent := rest, productChan := productChan s @ [product]\<rparr>)
          else None)"
| "step CloseProductChan s =
     (if unsent s = [] \<and> \<not> productChanClosed s
      then Some (s\<lparr>productChanClosed := True\<rparr>) else None)"
| "step (Receive i) s =
     (if i < length (workers s) \<and> workers s ! i = Receiving
      then (case productChan s of
              [] \<Rightarrow> None
            | product # rest \<Rightarrow>
                Some (s\<lparr>productChan := rest,
                        workers := (workers s)[i := Fetching product]\<rparr>))
      else None)"
| "step (WorkerDone i) s =
     (if i < length (workers s) \<and> workers s ! i = Receiving
         \<and> productChan s = [] \<and> productChanClosed s
      then Some (s\<lparr>workers := (workers s)[i := Exited]\<rparr>) else None)"
| "step (FetchReturns i price now) s =
     (if i < length (workers s)
      then (case workers s ! i of
              Fetching product \<Rightarrow>
                Some (s\<lparr>workers := (workers s)[i :=
                          (case priceWorker_body product price now of
                             Some entry \<Rightarrow> Sending entry
                           | None \<Rightarrow> Receiving)],
                        events := events s @ [Fetched i product price]\<rparr>)
            | _ \<Rightarrow> None)
      else None)"
| "step (SendResult i) s =
     (if i < length (workers s)
      then (case workers s ! i of
              Sending entry \<Rightarrow>
                if length (resultChan s) < capacity s
                then Some (s\<lparr>resultChan := resultChan s @ [entry],
                             workers := (workers s)[i := Receiving],
                             events := events s @ [Forwarded i entry]\<rparr>)
                else None
            | _ \<Rightarrow> None)
      else None)"
| "step CloseResultChan s =
     (if (\<forall>w\<in>set (workers s). w = Exited) \<and> \<not> resultChanClosed s
      then Some (s\<lparr>resultChanClosed := True\<rparr>) else None)"
| "step (Collect io) s =
     (if returned s then None
      else (case resultChan s of
              [] \<Rightarrow> None
            | entry # rest \<Rightarrow>
                (case InsertPriceEntry (store s) (ProductID entry) (Price entry)
                        (Timestamp entry) io of
                   (d', err) \<Rightarrow>
                     Some (s\<lparr>resultChan := rest, store := d',
                             events := events s @
                               [Inserted entry err,
                                Logged (case err of
                                          Some e \<Rightarrow> LogFailedToSave (ProductID entry) e
                                        | None \<Rightarrow> LogSaved (ProductID entry) (Price entry))]\<rparr>))))"
| "step Return s =
     (if resultChan s = [] \<and> resultChanClosed s \<and> \<not> returned s
      then Some (s\<lparr>returned := True\<rparr>) else None)"

fun run :: "action list \<Rightarrow> pool \<Rightarrow> pool option" where
  "run [] s = Some s"
| "run (a # as) s = (case step a s of None \<Rightarrow> None | Some s' \<Rightarrow> run as s')"

text \<open>The state once \<^verbatim>\<open>trackAllProducts\<close> has made the channels and started the
  workers and the two helper goroutines.\<close>

definition start :: "Product list \<Rightarrow> Database \<Rightarrow> pool" where
  "start snapshot d =
     \<lparr>capacity = length snapshot, unsent = snapshot, productChan = [],
      productChanClosed = False, workers = replicate numWorkers Receiving,
      resultChan = [], resultChanClosed = False, returned = False, store = d,
      events = [Logged (LogTracking (length snapshot))]\<rparr>"

text \<open>\<open>snapshot\<close> is the slice that the loop over the map \<^verbatim>\<open>pt.products\<close> builds; Go
  fixes no iteration order, so any arrangement of the map's values is possible.\<close>

definition is_snapshot :: "PriceTracker \<Rightarrow> Product list \<Rightarrow> bool" where
  "is_snapshot pt snapshot = (mset snapshot = mset (map snd (products pt)))"

text \<open>
  \<^verbatim>\<open>trackAllProducts\<close>, for the iteration order \<open>snapshot\<close> and the interleaving
  \<open>schedule\<close> of the goroutines: the tracker and the events when the call returns.
  The result is \<open>None\<close> when \<open>snapshot\<close> is not an arrangement of the registry or
  \<open>schedule\<close> is not an execution of the round up to its return.
\<close>

definition trackAllProducts ::
  "PriceTracker \<Rightarrow> Product list \<Rightarrow> action list \<Rightarrow> (PriceTracker \<times> event list) option" where
  "trackAllProducts pt snapshot schedule =
     (if \<not> is_snapshot pt snapshot then None
      else if length snapshot = 0 then Some (pt, [])
      else (case run schedule (start snapshot (db pt)) of
              None \<Rightarrow> None
            | Some s \<Rightarrow> if returned s then Some (pt\<lparr>db := store s\<rparr>, events s) else None))"

section \<open>Notions used in the statements\<close>

subsection \<open>Store and registry\<close>

text \<open>The row that the join of \<^verbatim>\<open>GetProductsWithLatestPrices\<close> is shown to yield for one
  product: the newest entry of the product, if it has one.\<close>

definition latest_row :: "PriceEntry list \<Rightarrow> Product \<Rightarrow> ProductWithLatestPrice" where
  "latest_row es p =
     (case order_by_timestamp_desc (filter (\<lambda>e. ProductID e = ID p) es) of
        [] \<Rightarrow> Product.extend p \<lparr>LatestPrice = None, LastUpdated = None\<rparr>
      | first # rest \<Rightarrow>
          Product.extend p \<lparr>LatestPrice = Some (Price first), LastUpdated = Some (Timestamp first)\<rparr>)"

text \<open>The association list is a Go map whose keys are the ids of its values: one pair
  per key, each stored under \<^verbatim>\<open>product.ID\<close>.\<close>

definition registry_ok :: "PriceTracker \<Rightarrow> bool" where
  "registry_ok pt =
     (distinct (map fst (products pt)) \<and> (\<forall>(k, p)\<in>set (products pt). ID p = k))"

text \<open>What holds of a tracker however it was reached: the registered products have
  their row in \<^verbatim>\<open>products\<close>, and so has the product of every row of \<^verbatim>\<open>price_entries\<close>.\<close>

definition consistent :: "PriceTracker \<Rightarrow> bool" where
  "consistent pt =
     (registry_ok pt
      \<and> (\<forall>(k, p)\<in>set (products pt). k \<in> set (map ID (products_table (db pt))))
      \<and> (\<forall>e\<in>set (price_entries_table (db pt)).
            ProductID e \<in> set (map ID (products_table (db pt)))))"

text \<open>The trackers the program reaches: \<^verbatim>\<open>main\<close> creates the tables and the tracker,
  adds products, and the scheduler runs one round after the other (a round ends before
  the loop of \<^verbatim>\<open>StartTracking\<close> waits for the next tick).\<close>

inductive reachable :: "PriceTracker \<Rightarrow> bool" where
  created: "reachable (NewPriceTracker createTables io)"
| added: "reachable pt \<Longrightarrow> reachable (fst (AddProduct pt product io))"
| tracked: "reachable pt \<Longrightarrow> trackAllProducts pt snapshot schedule = Some (pt', evs)
            \<Longrightarrow> reachable pt'"
| restarted: "reachable pt \<Longrightarrow> reachable (NewPriceTracker (db pt) io)"

subsection \<open>Reading the events of a round\<close>

fun fetching :: "worker \<Rightarrow> Product list" where
  "fetching (Fetching product) = [product]"
| "fetching _ = []"

fun sending :: "worker \<Rightarrow> PriceEntry list" where
  "sending (Sending entry) = [entry]"
| "sending _ = []"

fun fetch_of :: "event \<Rightarrow> Product list" where
  "fetch_of (Fetched i product price) = [product]"
| "fetch_of _ = []"

fun accept_of :: "event \<Rightarrow> (string \<times> float64) list" where
  "accept_of (Fetched i product price) =
     (if f64_gt price (Finite 0) then [(ID product, price)] else [])"
| "accept_of _ = []"

fun forward_of :: "event \<Rightarrow> PriceEntry list" where
  "forward_of (Forwarded i entry) = [entry]"
| "forward_of _ = []"

fun attempt_of :: "event \<Rightarrow> PriceEntry list" where
  "attempt_of (Inserted entry err) = [entry]"
| "attempt_of _ = []"

fun saved_of :: "event \<Rightarrow> PriceEntry list" where
  "saved_of (Inserted entry None) = [entry]"
| "saved_of _ = []"

fun measured_of :: "event \<Rightarrow> (string \<times> float64) list" where
  "measured_of (Fetched i product price) =
     (if finite_positive price then [(ID product, price)] else [])"
| "measured_of _ = []"


fun worker_of :: "event \<Rightarrow> nat list" where
  "worker_of (Fetched i product price) = [i]"
| "worker_of (Forwarded i entry) = [i]"
| "worker_of _ = []"

text \<open>The products for which \<^verbatim>\<open>fetchPrice\<close> was called, in order.\<close>

definition fetched :: "event list \<Rightarrow> Product list" where
  "fetched evs = concat (map fetch_of evs)"

text \<open>The product id and value of the fetches whose value was greater than zero.\<close>

definition accepted :: "event list \<Rightarrow> (string \<times> float64) list" where
  "accepted evs = concat (map accept_of evs)"

text \<open>The product id and value of the fetches whose value was a finite positive
  number.\<close>

definition measured :: "event list \<Rightarrow> (string \<times> float64) list" where
  "measured evs = concat (map measured_of evs)"


text \<open>The entries put on \<^verbatim>\<open>resultChan\<close>, the entries given to \<^verbatim>\<open>InsertPriceEntry\<close>, and
  those of them that it stored.\<close>

definition forwarded :: "event list \<Rightarrow> PriceEntry list" where
  "forwarded evs = concat (map forward_of evs)"

definition attempted :: "event list \<Rightarrow> PriceEntry list" where
  "attempted evs = concat (map attempt_of evs)"

definition saved :: "event list \<Rightarrow> PriceEntry list" where
  "saved evs = concat (map saved_of evs)"

definition measurement :: "PriceEntry \<Rightarrow> string \<times> float64" where
  "measurement e = (ProductID e, Price e)"

text \<open>A row without its row id.\<close>

definition row_data :: "PriceEntry \<Rightarrow> string \<times> float64 \<times> time" where
  "row_data e = (ProductID e, Price e, Timestamp e)"

subsection \<open>Invariants of a round and its variant\<close>

definition inv_flow :: "Product list \<Rightarrow> pool \<Rightarrow> bool" where
  "inv_flow snapshot s =
     (mset (unsent s) + mset (productChan s) + mset (concat (map fetching (workers s)))
        + mset (fetched (events s)) = mset snapshot)"

definition inv_closed :: "pool \<Rightarrow> bool" where
  "inv_closed s =
     ((productChanClosed s \<longrightarrow> unsent s = [])
      \<and> (Exited \<in> set (workers s) \<longrightarrow> productChanClosed s \<and> productChan s = [])
      \<and> (resultChanClosed s \<longrightarrow> (\<forall>w\<in>set (workers s). w = Exited))
      \<and> (returned s \<longrightarrow> resultChanClosed s \<and> resultChan s = []))"

definition inv_fifo :: "pool \<Rightarrow> bool" where
  "inv_fifo s = (forwarded (events s) = attempted (events s) @ resultChan s)"

definition inv_accept :: "pool \<Rightarrow> bool" where
  "inv_accept s =
     (mset (map measurement (forwarded (events s)))
        + mset (map measurement (concat (map sending (workers s))))
      = mset (accepted (events s)))"

definition inv_cap :: "pool \<Rightarrow> bool" where
  "inv_cap s =
     (length (unsent s) + length (productChan s) + length (concat (map fetching (workers s)))
        + length (concat (map sending (workers s))) + length (resultChan s) \<le> capacity s)"

definition inv_store :: "Database \<Rightarrow> pool \<Rightarrow> bool" where
  "inv_store d s =
     (products_table (store s) = products_table d
      \<and> foreign_keys (store s) = foreign_keys d
      \<and> (\<exists>new. price_entries_table (store s) = price_entries_table d @ new
                 \<and> map row_data new = map row_data (saved (events s))))"

definition inv_workers :: "pool \<Rightarrow> bool" where
  "inv_workers s =
     (length (workers s) = numWorkers
      \<and> (\<forall>i\<in>set (concat (map worker_of (events s))). i < numWorkers))"

text \<open>The actions a worker still has to take, at most, before it is past \<^verbatim>\<open>wg.Done()\<close>
  with nothing of its product left in the round: every action makes \<open>remaining\<close>
  smaller.\<close>

fun weight :: "worker \<Rightarrow> nat" where
  "weight Receiving = 1"
| "weight (Fetching product) = 4"
| "weight (Sending entry) = 3"
| "weight Exited = 0"

definition remaining :: "pool \<Rightarrow> nat" where
  "remaining s =
     5 * length (unsent s) + 4 * length (productChan s) + sum_list (map weight (workers s))
     + length (resultChan s) + (if productChanClosed s then 0 else 1)
     + (if resultChanClosed s then 0 else 1) + (if returned s then 0 else 1)"

subsection \<open>Sample data (the products of main.go)\<close>

definition laptop :: Product where
  "laptop = \<lparr>ID = ''laptop-1'', Name = ''Gaming Laptop'', URL = ''https://example.com/laptop-1''\<rparr>"

definition phone :: Product where
  "phone = \<lparr>ID = ''phone-1'', Name = ''Smartphone X'', URL = ''https://example.com/phone-1''\<rparr>"

definition sample_tracker :: PriceTracker where
  "sample_tracker =
     fst (AddProduct (fst (AddProduct (NewPriceTracker createTables None) phone None))
            laptop None)"

text \<open>The sample tracker after three measurements of the laptop.\<close>

definition sample_history :: PriceTracker where
  "sample_history =
     sample_tracker\<lparr>db :=
       fst (InsertPriceEntry
         (fst (InsertPriceEntry
           (fst (InsertPriceEntry (db sample_tracker) ''laptop-1'' (Finite 1150) 100 None))
           ''laptop-1'' (Finite 1250) 300 None))
         ''laptop-1'' (Finite 1200) 200 None)\<rparr>"

text \<open>A round over the snapshot \<open>[laptop, phone]\<close>: the phone's fetch returns \<open>-1\<close>, the
  laptop's \<open>1184.5\<close>.\<close>

definition sample_schedule :: "action list" where
  "sample_schedule =
     [SendProduct, Receive 0, SendProduct, CloseProductChan, Receive 3,
      FetchReturns 3 (Finite (- 1)) 500, FetchReturns 0 (Finite 1184.5) 700, WorkerDone 3,
      SendResult 0, WorkerDone 1, WorkerDone 2, WorkerDone 4, Collect None, WorkerDone 0,
      CloseResultChan, Return]"

text \<open>A round in which both fetches succeed and the first insert fails.\<close>

definition failing_schedule :: "action list" where
  "failing_schedule =
     [SendProduct, SendProduct, CloseProductChan, Receive 1, Receive 2,
      FetchReturns 2 (Finite 810) 500, SendResult 2, FetchReturns 1 (Finite 1184.5) 700,
      Collect (Some ''disk I/O error''), SendResult 1, WorkerDone 0, WorkerDone 1,
      WorkerDone 2, WorkerDone 3, WorkerDone 4, Collect None, CloseResultChan, Return]"


text \<open>The entries the workers build in these rounds, and what the rounds leave.\<close>

definition laptop_entry :: "float64 \<Rightarrow> PriceEntry" where
  "laptop_entry price = \<lparr>EntryID = 0, ProductID = ''laptop-1'', Price = price, Timestamp = 700\<rparr>"

definition phone_entry :: PriceEntry where
  "phone_entry = \<lparr>EntryID = 0, ProductID = ''phone-1'', Price = Finite 810, Timestamp = 500\<rparr>"

definition sample_stored :: "float64 \<Rightarrow> PriceTracker" where
  "sample_stored price =
     sample_tracker\<lparr>db := (db sample_tracker)
       \<lparr>price_entries_table := [(laptop_entry price)\<lparr>EntryID := 1\<rparr>], seq := 1\<rparr>\<rparr>"

definition sample_events :: "event list" where
  "sample_events =
     [Logged (LogTracking 2), Fetched 3 phone (Finite (- 1)), Fetched 0 laptop (Finite 1184.5),
      Forwarded 0 (laptop_entry (Finite 1184.5)), Inserted (laptop_entry (Finite 1184.5)) None,
      Logged (LogSaved ''laptop-1'' (Finite 1184.5))]"

definition failing_events :: "event list" where
  "failing_events =
     [Logged (LogTracking 2), Fetched 2 phone (Finite 810), Forwarded 2 phone_entry,
      Fetched 1 laptop (Finite 1184.5),
      Inserted phone_entry (Some (DriverError ''disk I/O error'')),
      Logged (LogFailedToSave ''phone-1'' (DriverError ''disk I/O error'')),
      Forwarded 1 (laptop_entry (Finite 1184.5)), Inserted (laptop_entry (Finite 1184.5)) None,
      Logged (LogSaved ''laptop-1'' (Finite 1184.5))]"



text \<open>The sample round when the two fetches are under way, and the failing round when
  the phone's entry waits in \<^verbatim>\<open>resultChan\<close>.\<close>

definition fetches_under_way :: pool where
  "fetches_under_way =
     \<lparr>capacity = 2, unsent = [], productChan = [], productChanClosed = True,
      workers = [Fetching laptop, Receiving, Receiving, Fetching phone, Receiving],
      resultChan = [], resultChanClosed = False, returned = False,
      store = db sample_tracker, events = [Logged (LogTracking 2)]\<rparr>"

definition entry_waiting :: pool where
  "entry_waiting =
     \<lparr>capacity = 2, unsent = [], productChan = [], productChanClosed = True,
      workers = [Receiving, Sending (laptop_entry (Finite 1184.5)), Receiving, Receiving,
                 Receiving],
      resultChan = [phone_entry], resultChanClosed = False, returned = False,
      store = db sample_tracker,
      events = [Logged (LogTracking 2), Fetched 2 phone (Finite 810), Forwarded 2 phone_entry,
                Fetched 1 laptop (Finite 1184.5)]\<rparr>"

section \<open>The sample data, evaluated\<close>

lemma sample_tracker_eq:
  "sample_tracker =
     \<lparr>db = \<lparr>products_table = [phone, laptop], price_entries_table = [], seq = 0,
             foreign_keys = False\<rparr>,
      products = [(''phone-1'', phone), (''laptop-1'', laptop)]\<rparr>"
  by (simp add: sample_tracker_def laptop_def phone_def NewPriceTracker_def loadProducts_def
      GetAllProducts_def createTables_def AddProduct_def InsertProduct_def)

lemma sample_history_eq:
  "sample_history =
     \<lparr>db = \<lparr>products_table = [phone, laptop],
             price_entries_table =
               [\<lparr>EntryID = 1, ProductID = ''laptop-1'', Price = Finite 1150, Timestamp = 100\<rparr>,
                \<lparr>EntryID = 2, ProductID = ''laptop-1'', Price = Finite 1250, Timestamp = 300\<rparr>,
                \<lparr>EntryID = 3, ProductID = ''laptop-1'', Price = Finite 1200, Timestamp = 200\<rparr>],
             seq = 3, foreign_keys = False\<rparr>,
      products = [(''phone-1'', phone), (''laptop-1'', laptop)]\<rparr>"
  by (simp add: sample_history_def sample_tracker_eq InsertPriceEntry_def)

section \<open>The store's queries\<close>

lemma order_desc_sorted:
  "sorted_wrt (\<lambda>a b. Timestamp b \<le> Timestamp a) (order_by_timestamp_desc es)"
proof -
  have "sorted (map (\<lambda>e. - Timestamp e) (order_by_timestamp_desc es))"
    unfolding order_by_timestamp_desc_def by (rule sorted_sort_key)
  then show ?thesis by (simp add: sorted_map)
qed

lemma order_desc_set [simp]: "set (order_by_timestamp_desc es) = set es"
  by (simp add: order_by_timestamp_desc_def)

lemma order_desc_length [simp]: "length (order_by_timestamp_desc es) = length es"
  by (simp add: order_by_timestamp_desc_def)

lemma order_desc_mset [simp]: "mset (order_by_timestamp_desc es) = mset es"
  by (simp add: order_by_timestamp_desc_def)

lemma sql_limit_length: "0 \<le> n \<Longrightarrow> int (length (sql_limit n rows)) \<le> n"
  by (simp add: sql_limit_def)

lemma sql_limit_sorted: "sorted_wrt R rows \<Longrightarrow> sorted_wrt R (sql_limit n rows)"
  by (simp add: sql_limit_def sorted_wrt_take)

lemma sql_limit_set: "set (sql_limit n rows) \<subseteq> set rows"
  by (auto simp: sql_limit_def dest: in_set_takeD)

text \<open>
  Claim C5. For every product id and every limit of at least 1, \<^verbatim>\<open>GetPriceHistory\<close>
  (when its query runs) returns entries of that product, newest first, and at most
  \<open>limit\<close> of them; the entries it leaves out are no newer than those it returns, and
  it leaves entries out only when it returns exactly \<open>limit\<close>.
\<close>

theorem GetPriceHistory_newest_first_capped:
  assumes "1 \<le> limit"
  shows "\<exists>r. GetPriceHistory d productID limit None = Inr r
           \<and> sorted_wrt (\<lambda>a b. Timestamp b \<le> Timestamp a) r
           \<and> int (length r) \<le> limit
           \<and> (\<forall>e\<in>set r. e \<in> set (price_entries_table d) \<and> ProductID e = productID)
           \<and> (\<exists>older. mset r + mset older
                        = mset (filter (\<lambda>e. ProductID e = productID) (price_entries_table d))
                   \<and> (\<forall>x\<in>set r. \<forall>y\<in>set older. Timestamp y \<le> Timestamp x)
                   \<and> (older \<noteq> [] \<longrightarrow> int (length r) = limit))"
proof -
  let ?R = "\<lambda>a b. Timestamp b \<le> Timestamp a"
  let ?rows = "order_by_timestamp_desc (filter (\<lambda>e. ProductID e = productID) (price_entries_table d))"
  let ?r = "sql_limit limit ?rows"
  have res: "GetPriceHistory d productID limit None = Inr ?r"
    by (simp add: GetPriceHistory_def)
  have srt: "sorted_wrt ?R ?rows" by (rule order_desc_sorted)
  have s: "sorted_wrt ?R ?r" using srt by (rule sql_limit_sorted)
  have l: "int (length ?r) \<le> limit" using assms by (simp add: sql_limit_length)
  have m: "\<forall>e\<in>set ?r. e \<in> set (price_entries_table d) \<and> ProductID e = productID"
    using sql_limit_set [of limit ?rows] by auto
  have r_take: "?r = take (nat limit) ?rows" using assms by (simp add: sql_limit_def)
  let ?older = "drop (nat limit) ?rows"
  have split: "?rows = ?r @ ?older" by (simp add: r_take)
  have "mset ?r + mset ?older = mset ?rows"
    by (metis mset_append split)
  then have o1: "mset ?r + mset ?older
      = mset (filter (\<lambda>e. ProductID e = productID) (price_entries_table d))"
    by simp
  have o2: "\<forall>x\<in>set ?r. \<forall>y\<in>set ?older. Timestamp y \<le> Timestamp x"
    using srt sorted_wrt_append [of ?R "take (nat limit) ?rows" "drop (nat limit) ?rows"]
    by (simp add: r_take)
  have o3: "?older \<noteq> [] \<longrightarrow> int (length ?r) = limit"
    using assms by (auto simp: r_take)
  from res s l m o1 o2 o3 show ?thesis by blast
qed

text \<open>The laptop's three entries, asked with limit 2: the entries of instants 300 and
  200 come back, in that order.\<close>

theorem GetPriceHistory_newest_first_capped_witness:
  "(1::int) \<le> 2
   \<and> GetPriceHistory (db sample_history) ''laptop-1'' 2 None
       = Inr [\<lparr>EntryID = 2, ProductID = ''laptop-1'', Price = Finite 1250, Timestamp = 300\<rparr>,
              \<lparr>EntryID = 3, ProductID = ''laptop-1'', Price = Finite 1200, Timestamp = 200\<rparr>]
   \<and> (\<exists>r. GetPriceHistory (db sample_history) ''laptop-1'' 2 None = Inr r
          \<and> sorted_wrt (\<lambda>a b. Timestamp b \<le> Timestamp a) r \<and> int (length r) \<le> 2)"
proof -
  have h: "(1::int) \<le> 2" by simp
  have e: "GetPriceHistory (db sample_history) ''laptop-1'' 2 None
       = Inr [\<lparr>EntryID = 2, ProductID = ''laptop-1'', Price = Finite 1250, Timestamp = 300\<rparr>,
              \<lparr>EntryID = 3, ProductID = ''laptop-1'', Price = Finite 1200, Timestamp = 200\<rparr>]"
    by (simp add: sample_history_eq GetPriceHistory_def sql_limit_def order_by_timestamp_desc_def)
  from GetPriceHistory_newest_first_capped [OF h, of "db sample_history" "''laptop-1''"]
  have "\<exists>r. GetPriceHistory (db sample_history) ''laptop-1'' 2 None = Inr r
          \<and> sorted_wrt (\<lambda>a b. Timestamp b \<le> Timestamp a) r \<and> int (length r) \<le> 2"
    by blast
  with h e show ?thesis by blast
qed

subsection \<open>The join of GetProductsWithLatestPrices\<close>

lemma distinct_set_singleton:
  assumes "distinct xs" "set xs = {a}"
  shows "xs = [a]"
proof (cases xs)
  case Nil
  with assms show ?thesis by simp
next
  case (Cons y ys)
  with assms have y: "y = a" by auto
  from Cons assms have "set ys \<subseteq> {a}" "a \<notin> set ys" using y by auto
  then have "ys = []" by (cases ys) auto
  then show ?thesis using Cons y by simp
qed

lemma partition_rows_set:
  "set (partition_rows es pid) =
     (case order_by_timestamp_desc (filter (\<lambda>e. ProductID e = pid) es) of
        [] \<Rightarrow> {}
      | first # rest \<Rightarrow> {(pid, Price first, Timestamp first, rn) | rn. 1 \<le> rn \<and> rn \<le> Suc (length rest)})"
  by (auto simp: partition_rows_def split: list.splits)

lemma partition_nonempty_iff:
  "(order_by_timestamp_desc (filter (\<lambda>e. ProductID e = pid) es) \<noteq> []) = (pid \<in> ProductID ` set es)"
proof -
  have "(order_by_timestamp_desc (filter (\<lambda>e. ProductID e = pid) es) = [])
        = (filter (\<lambda>e. ProductID e = pid) es = [])"
    by (metis order_desc_length length_0_conv)
  then show ?thesis by (auto simp: filter_empty_conv)
qed

lemma pe_match_set:
  "set (filter (\<lambda>(pid, price, ts, rn). k = pid \<and> rn = 1) (pe es)) =
     (case order_by_timestamp_desc (filter (\<lambda>e. ProductID e = k) es) of
        [] \<Rightarrow> {}
      | first # rest \<Rightarrow> {(k, Price first, Timestamp first, 1)})"
proof (cases "order_by_timestamp_desc (filter (\<lambda>e. ProductID e = k) es)")
  case Nil
  then have "set (partition_rows es k) = {}" by (simp add: partition_rows_set)
  moreover have "\<And>pid x. x \<in> set (partition_rows es pid) \<Longrightarrow> fst x = pid"
    by (auto simp: partition_rows_set split: list.splits)
  ultimately show ?thesis using Nil by (fastforce simp: pe_def)
next
  case (Cons first rest)
  then have k: "k \<in> ProductID ` set es" using partition_nonempty_iff [of k es] by simp
  have rows: "set (partition_rows es k) =
     {(k, Price first, Timestamp first, rn) | rn. 1 \<le> rn \<and> rn \<le> Suc (length rest)}"
    using Cons by (simp add: partition_rows_set)
  have other: "\<And>pid x. x \<in> set (partition_rows es pid) \<Longrightarrow> fst x = pid"
    by (auto simp: partition_rows_set split: list.splits)
  have "set (filter (\<lambda>(pid, price, ts, rn). k = pid \<and> rn = 1) (pe es))
        = {(k, Price first, Timestamp first, 1)}"
  proof (rule set_eqI, rule iffI)
    fix x assume "x \<in> set (filter (\<lambda>(pid, price, ts, rn). k = pid \<and> rn = 1) (pe es))"
    then obtain pid where x: "x \<in> set (partition_rows es pid)" and
      f: "(\<lambda>(pid, price, ts, rn). k = pid \<and> rn = 1) x"
      by (auto simp: pe_def)
    from other [OF x] f have "pid = k" by (auto split: prod.splits)
    with x rows f show "x \<in> {(k, Price first, Timestamp first, 1)}" by auto
  next
    fix x assume "x \<in> {(k, Price first, Timestamp first, 1::nat)}"
    then have xe: "x = (k, Price first, Timestamp first, 1)" by simp
    then have "x \<in> set (partition_rows es k)" using rows by simp
    then have "x \<in> set (pe es)" using k by (auto simp: pe_def)
    then show "x \<in> set (filter (\<lambda>(pid, price, ts, rn). k = pid \<and> rn = 1) (pe es))"
      using xe by simp
  qed
  then show ?thesis using Cons by simp
qed

text \<open>For each product the subquery has at most one row with \<^verbatim>\<open>rn = 1\<close>, that of the
  newest entry.\<close>

lemma pe_match:
  "filter (\<lambda>(pid, price, ts, rn). k = pid \<and> rn = 1) (pe es) =
     (case order_by_timestamp_desc (filter (\<lambda>e. ProductID e = k) es) of
        [] \<Rightarrow> []
      | first # rest \<Rightarrow> [(k, Price first, Timestamp first, 1)])"
proof -
  have d: "distinct (filter (\<lambda>(pid, price, ts, rn). k = pid \<and> rn = 1) (pe es))"
    by (simp add: pe_def)
  show ?thesis
  proof (cases "order_by_timestamp_desc (filter (\<lambda>e. ProductID e = k) es)")
    case Nil
    then have "set (filter (\<lambda>(pid, price, ts, rn). k = pid \<and> rn = 1) (pe es)) = {}"
      using pe_match_set [of k es] by (simp only: list.case)
    then have "filter (\<lambda>(pid, price, ts, rn). k = pid \<and> rn = 1) (pe es) = []"
      by (simp only: set_empty)
    then show ?thesis using Nil by (simp only: list.case)
  next
    case (Cons first rest)
    then have "set (filter (\<lambda>(pid, price, ts, rn). k = pid \<and> rn = 1) (pe es))
        = {(k, Price first, Timestamp first, 1)}"
      using pe_match_set [of k es] by (simp only: list.case)
    from distinct_set_singleton [OF d this] show ?thesis using Cons by (simp only: list.case)
  qed
qed

lemma left_join_pe: "left_join (pe es) p = [latest_row es p]"
  unfolding left_join_def pe_match latest_row_def
  by (simp split: list.splits)

lemma latest_row_product [simp]:
  "Product.truncate (latest_row es p) = p" "Name (latest_row es p) = Name p"
  "ID (latest_row es p) = ID p"
  by (simp_all add: latest_row_def Product.extend_def Product.truncate_def split: list.splits)

lemma latest_row_none:
  "filter (\<lambda>e. ProductID e = ID p) es = [] \<Longrightarrow>
     LatestPrice (latest_row es p) = None \<and> LastUpdated (latest_row es p) = None"
  by (simp add: latest_row_def Product.extend_def order_by_timestamp_desc_def)

lemma latest_row_some:
  assumes "filter (\<lambda>e. ProductID e = ID p) es \<noteq> []"
  shows "\<exists>e\<in>set es. ProductID e = ID p
           \<and> LatestPrice (latest_row es p) = Some (Price e)
           \<and> LastUpdated (latest_row es p) = Some (Timestamp e)
           \<and> (\<forall>e'\<in>set es. ProductID e' = ID p \<longrightarrow> Timestamp e' \<le> Timestamp e)"
proof -
  let ?rows = "order_by_timestamp_desc (filter (\<lambda>e. ProductID e = ID p) es)"
  from assms have "?rows \<noteq> []" by (metis order_desc_length length_0_conv)
  then obtain first rest where fr: "?rows = first # rest" by (cases ?rows) auto
  have "sorted_wrt (\<lambda>a b. Timestamp b \<le> Timestamp a) (first # rest)"
    using order_desc_sorted [of "filter (\<lambda>e. ProductID e = ID p) es"] fr by simp
  then have newest: "\<forall>y\<in>set (first # rest). Timestamp y \<le> Timestamp first" by auto
  have mem: "set (first # rest) = {e \<in> set es. ProductID e = ID p}"
    using fr order_desc_set [of "filter (\<lambda>e. ProductID e = ID p) es"] by auto
  have "first \<in> set es" "ProductID first = ID p" using mem by auto
  moreover have "LatestPrice (latest_row es p) = Some (Price first)"
    "LastUpdated (latest_row es p) = Some (Timestamp first)"
    using fr by (simp_all add: latest_row_def Product.extend_def)
  moreover have "\<forall>e'\<in>set es. ProductID e' = ID p \<longrightarrow> Timestamp e' \<le> Timestamp first"
    using newest mem by blast
  ultimately show ?thesis by blast
qed

lemma GetProductsWithLatestPrices_rows:
  "GetProductsWithLatestPrices d None
     = Inr (sort_key Name (map (latest_row (price_entries_table d)) (products_table d)))"
proof -
  have "concat (map (left_join (pe es)) ps) = map (latest_row es) ps" for es ps
    by (induction ps) (simp_all add: left_join_pe)
  then show ?thesis by (simp add: GetProductsWithLatestPrices_def)
qed

text \<open>
  Claim C10. When its query runs, \<^verbatim>\<open>GetProducts\<close> returns the rows of \<^verbatim>\<open>products\<close>, each
  once, in ascending order of name; a product without entries has neither price nor
  timestamp, and a product with entries has the price and the timestamp of one of its
  entries whose timestamp no other entry of the product exceeds.
\<close>

theorem GetProducts_sorted_with_latest:
  "sorted (map Name (GetProducts pt None))
   \<and> mset (map Product.truncate (GetProducts pt None)) = mset (products_table (db pt))
   \<and> (\<forall>x\<in>set (GetProducts pt None).
        (if filter (\<lambda>e. ProductID e = ID x) (price_entries_table (db pt)) = []
         then LatestPrice x = None \<and> LastUpdated x = None
         else \<exists>e\<in>set (price_entries_table (db pt)). ProductID e = ID x
                \<and> LatestPrice x = Some (Price e) \<and> LastUpdated x = Some (Timestamp e)
                \<and> (\<forall>e'\<in>set (price_entries_table (db pt)).
                      ProductID e' = ID x \<longrightarrow> Timestamp e' \<le> Timestamp e)))"
proof -
  let ?es = "price_entries_table (db pt)"
  let ?rows = "map (latest_row ?es) (products_table (db pt))"
  have r: "GetProducts pt None = sort_key Name ?rows"
    by (simp add: GetProducts_def GetProductsWithLatestPrices_rows)
  have a: "sorted (map Name (GetProducts pt None))" unfolding r by (rule sorted_sort_key)
  have "mset (map Product.truncate (sort_key Name ?rows)) = mset (products_table (db pt))"
    by (simp add: multiset.map_comp comp_def)
  then have b: "mset (map Product.truncate (GetProducts pt None)) = mset (products_table (db pt))"
    unfolding r .
  have c: "\<forall>x\<in>set (GetProducts pt None).
        (if filter (\<lambda>e. ProductID e = ID x) ?es = []
         then LatestPrice x = None \<and> LastUpdated x = None
         else \<exists>e\<in>set ?es. ProductID e = ID x
                \<and> LatestPrice x = Some (Price e) \<and> LastUpdated x = Some (Timestamp e)
                \<and> (\<forall>e'\<in>set ?es. ProductID e' = ID x \<longrightarrow> Timestamp e' \<le> Timestamp e))"
  proof
    fix x assume "x \<in> set (GetProducts pt None)"
    then obtain p where x: "x = latest_row ?es p" unfolding r by auto
    show "if filter (\<lambda>e. ProductID e = ID x) ?es = []
         then LatestPrice x = None \<and> LastUpdated x = None
         else \<exists>e\<in>set ?es. ProductID e = ID x
                \<and> LatestPrice x = Some (Price e) \<and> LastUpdated x = Some (Timestamp e)
                \<and> (\<forall>e'\<in>set ?es. ProductID e' = ID x \<longrightarrow> Timestamp e' \<le> Timestamp e)"
    proof (cases "filter (\<lambda>e. ProductID e = ID p) ?es = []")
      case True
      with latest_row_none [of p ?es] show ?thesis
        unfolding x by (simp only: latest_row_product if_True simp_thms)
    next
      case False
      with latest_row_some [of p ?es] show ?thesis
        unfolding x by (simp only: latest_row_product if_False simp_thms)
    qed
  qed
  from a b c show ?thesis by blast
qed

text \<open>With the laptop's three entries: the laptop comes first (\<open>Gaming Laptop\<close> is before
  \<open>Smartphone X\<close>) with its entry of instant 300, the phone has no price.\<close>

theorem GetProducts_sorted_with_latest_witness:
  "GetProducts sample_history None
     = [Product.extend laptop \<lparr>LatestPrice = Some (Finite 1250), LastUpdated = Some 300\<rparr>,
        Product.extend phone \<lparr>LatestPrice = None, LastUpdated = None\<rparr>]
   \<and> sorted (map Name (GetProducts sample_history None))
   \<and> mset (map Product.truncate (GetProducts sample_history None))
       = mset (products_table (db sample_history))"
proof -
  have e: "GetProducts sample_history None
     = [Product.extend laptop \<lparr>LatestPrice = Some (Finite 1250), LastUpdated = Some 300\<rparr>,
        Product.extend phone \<lparr>LatestPrice = None, LastUpdated = None\<rparr>]"
    by (simp add: GetProducts_def GetProductsWithLatestPrices_rows sample_history_eq
        latest_row_def order_by_timestamp_desc_def laptop_def phone_def Product.extend_def
        less_eq_char_def less_char_def)
  with GetProducts_sorted_with_latest [of sample_history] show ?thesis by blast
qed

section \<open>Registration, history and the handlers\<close>

text \<open>
  Claim C3. Registering a product whose id already has a row in \<^verbatim>\<open>products\<close> succeeds
  (when the statement runs): afterwards the only row with that id is the new product,
  all other rows and all price entries are as before, and the registry maps the id to
  the new product.
\<close>

theorem AddProduct_existing_id_upsert:
  assumes "ID product \<in> set (map ID (products_table (db pt)))"
  shows "\<exists>pt'. AddProduct pt product None = (pt', None)
           \<and> filter (\<lambda>q. ID q = ID product) (products_table (db pt')) = [product]
           \<and> filter (\<lambda>q. ID q \<noteq> ID product) (products_table (db pt'))
               = filter (\<lambda>q. ID q \<noteq> ID product) (products_table (db pt))
           \<and> price_entries_table (db pt') = price_entries_table (db pt)
           \<and> map_of (products pt') (ID product) = Some product
           \<and> (\<forall>k. k \<noteq> ID product \<longrightarrow> map_of (products pt') k = map_of (products pt) k)"
  by (simp add: AddProduct_def InsertProduct_def update_conv')

text \<open>The laptop registered again under a new name and URL.\<close>

theorem AddProduct_existing_id_upsert_witness:
  "ID \<lparr>ID = ''laptop-1'', Name = ''Laptop 2'', URL = ''https://example.com/l2''\<rparr>
     \<in> set (map ID (products_table (db sample_tracker)))
   \<and> AddProduct sample_tracker
        \<lparr>ID = ''laptop-1'', Name = ''Laptop 2'', URL = ''https://example.com/l2''\<rparr> None
      = (\<lparr>db = \<lparr>products_table =
                   [phone, \<lparr>ID = ''laptop-1'', Name = ''Laptop 2'', URL = ''https://example.com/l2''\<rparr>],
                 price_entries_table = [], seq = 0, foreign_keys = False\<rparr>,
           products =
             [(''phone-1'', phone),
              (''laptop-1'', \<lparr>ID = ''laptop-1'', Name = ''Laptop 2'', URL = ''https://example.com/l2''\<rparr>)]\<rparr>,
         None)
   \<and> (\<exists>pt'. AddProduct sample_tracker
          \<lparr>ID = ''laptop-1'', Name = ''Laptop 2'', URL = ''https://example.com/l2''\<rparr> None
            = (pt', None)
          \<and> map_of (products pt') ''laptop-1''
              = Some \<lparr>ID = ''laptop-1'', Name = ''Laptop 2'', URL = ''https://example.com/l2''\<rparr>)"
proof -
  let ?p = "\<lparr>ID = ''laptop-1'', Name = ''Laptop 2'', URL = ''https://example.com/l2''\<rparr>"
  have h: "ID ?p \<in> set (map ID (products_table (db sample_tracker)))"
    by (simp add: sample_tracker_eq laptop_def)
  have e: "AddProduct sample_tracker ?p None
      = (\<lparr>db = \<lparr>products_table = [phone, ?p],
                 price_entries_table = [], seq = 0, foreign_keys = False\<rparr>,
           products = [(''phone-1'', phone), (''laptop-1'', ?p)]\<rparr>, None)"
    by (simp add: sample_tracker_eq AddProduct_def InsertProduct_def laptop_def phone_def)
  from AddProduct_existing_id_upsert [OF h]
  have "\<exists>pt'. AddProduct sample_tracker ?p None = (pt', None)
          \<and> map_of (products pt') ''laptop-1'' = Some ?p"
    by auto
  with h e show ?thesis by blast
qed

text \<open>
  Claim C6. When the existence query runs, \<^verbatim>\<open>PriceTracker.GetPriceHistory\<close> returns the
  error \<open>product not found\<close> exactly when \<^verbatim>\<open>products\<close> has no row with the requested
  id; for an id that has a row it returns what the store's history query returns and
  never that error; for an id without a row (and not empty) the handler answers 404 with
  the error's message.
\<close>

theorem GetPriceHistory_tracker_not_found_iff:
  "(GetPriceHistory_tracker pt productID limit None io2 = Inl (ProductNotFound productID))
     = (productID \<notin> set (map ID (products_table (db pt))))
   \<and> (productID \<in> set (map ID (products_table (db pt))) \<longrightarrow>
        (\<forall>x. GetPriceHistory_tracker pt productID limit None io2 \<noteq> Inl (ProductNotFound x))
        \<and> GetPriceHistory_tracker pt productID limit None io2
            = GetPriceHistory (db pt) productID limit io2)
   \<and> (productID \<notin> set (map ID (products_table (db pt))) \<and> productID \<noteq> [] \<longrightarrow>
        handleGetPriceHistory pt productID limitParam None io2
          = \<lparr>status = StatusNotFound, payload = ErrorJSON (''product not found: '' @ productID)\<rparr>)"
proof -
  have ex: "ProductExists (db pt) productID None
            = (productID \<in> set (map ID (products_table (db pt))), None)"
    by (auto simp: ProductExists_def filter_empty_conv)
  show ?thesis
    by (auto simp: GetPriceHistory_tracker_def ex GetPriceHistory_def handleGetPriceHistory_def
        writeError_def writeJSON_def Let_def split: option.splits)
qed

text \<open>The scenario of the specification, \<open>History("unknown-id", limit=50)\<close>, and the
  history of the laptop.\<close>

theorem GetPriceHistory_tracker_not_found_iff_witness:
  "''unknown-id'' \<notin> set (map ID (products_table (db sample_history)))
   \<and> GetPriceHistory_tracker sample_history ''unknown-id'' 50 None None
       = Inl (ProductNotFound ''unknown-id'')
   \<and> handleGetPriceHistory sample_history ''unknown-id'' None None None
       = \<lparr>status = 404, payload = ErrorJSON ''product not found: unknown-id''\<rparr>
   \<and> ''laptop-1'' \<in> set (map ID (products_table (db sample_history)))
   \<and> GetPriceHistory_tracker sample_history ''laptop-1'' 50 None None
       = GetPriceHistory (db sample_history) ''laptop-1'' 50 None"
proof -
  have a: "''unknown-id'' \<notin> set (map ID (products_table (db sample_history)))"
    and b: "''unknown-id'' \<noteq> []"
    and c: "''laptop-1'' \<in> set (map ID (products_table (db sample_history)))"
    by (simp_all add: sample_history_eq laptop_def phone_def)
  from GetPriceHistory_tracker_not_found_iff [of sample_history "''unknown-id''" 50 None None] a b
  have 1: "GetPriceHistory_tracker sample_history ''unknown-id'' 50 None None
       = Inl (ProductNotFound ''unknown-id'')"
    and 2: "handleGetPriceHistory sample_history ''unknown-id'' None None None
       = \<lparr>status = 404, payload = ErrorJSON ''product not found: unknown-id''\<rparr>"
    by (simp_all add: StatusNotFound_def)
  from GetPriceHistory_tracker_not_found_iff [of sample_history "''laptop-1''" 50 None] c
  have 3: "GetPriceHistory_tracker sample_history ''laptop-1'' 50 None None
       = GetPriceHistory (db sample_history) ''laptop-1'' 50 None"
    by blast
  from a c 1 2 3 show ?thesis by blast
qed

text \<open>
  Claim C4, as the code has it. \<^verbatim>\<open>handleGetProducts\<close> always answers with status 200;
  when the store read behind it fails, the answer is status 200 with an empty list of
  products.
\<close>

theorem handleGetProducts_always_ok:
  "status (handleGetProducts pt io) = StatusOK
   \<and> (\<forall>m. handleGetProducts pt (Some m) = \<lparr>status = StatusOK, payload = ProductsJSON []\<rparr>)"
  by (simp add: handleGetProducts_def writeJSON_def GetProducts_def GetProductsWithLatestPrices_def)

theorem handleGetProducts_always_ok_witness:
  "status (handleGetProducts sample_history (Some ''database is locked'')) = 200
   \<and> payload (handleGetProducts sample_history (Some ''database is locked'')) = ProductsJSON []
   \<and> status (handleGetProducts sample_history None) = 200"
  using handleGetProducts_always_ok [of sample_history "Some ''database is locked''"]
    handleGetProducts_always_ok [of sample_history None]
  by (simp add: StatusOK_def)

text \<open>Claim C4, as stated, fails: with a failing store read the answer is not an
  internal error but status 200 and an empty list.\<close>

theorem handleGetProducts_store_fault_counterexample:
  "handleGetProducts sample_history (Some ''disk I/O error'')
     = \<lparr>status = 200, payload = ProductsJSON []\<rparr>
   \<and> status (handleGetProducts sample_history (Some ''disk I/O error''))
       \<noteq> StatusInternalServerError
   \<and> products_table (db sample_history) \<noteq> []"
  by (simp add: handleGetProducts_def writeJSON_def GetProducts_def GetProductsWithLatestPrices_def
      StatusOK_def StatusInternalServerError_def sample_history_eq)

text \<open>
  Claim C2, at the input where the code departs from it. On the store as
  \<^verbatim>\<open>createTables\<close> leaves it, with no product at all, \<^verbatim>\<open>InsertPriceEntry\<close> for the
  product id \<open>ghost\<close> succeeds and leaves a row in \<^verbatim>\<open>price_entries\<close> whose product id has
  no row in \<^verbatim>\<open>products\<close>.
\<close>

theorem InsertPriceEntry_unknown_product_creates_row:
  "InsertPriceEntry createTables ''ghost'' (Finite 10) 1000 None
     = (\<lparr>products_table = [],
         price_entries_table =
           [\<lparr>EntryID = 1, ProductID = ''ghost'', Price = Finite 10, Timestamp = 1000\<rparr>],
         seq = 1, foreign_keys = False\<rparr>, None)"
  by (simp add: InsertPriceEntry_def createTables_def)

text \<open>Had the connection foreign keys switched on, the insert would be refused.\<close>

lemma InsertPriceEntry_enforced:
  "foreign_keys d \<Longrightarrow> productID \<notin> set (map ID (products_table d)) \<Longrightarrow>
     InsertPriceEntry d productID price timestamp io = (d', err) \<Longrightarrow> d' = d \<and> err \<noteq> None"
  by (auto simp: InsertPriceEntry_def split: option.splits)

section \<open>Tracking rounds\<close>

subsection \<open>What one action does\<close>

lemma step_cases [consumes 1, case_names SendProduct CloseProductChan Receive FetchReturns
    SendResult WorkerDone CloseResultChan Collect Return]:
  assumes "step a s = Some s'"
  obtains
    (SendProduct) p rest where "a = SendProduct" "unsent s = p # rest"
      "length (productChan s) < capacity s"
      "s' = s\<lparr>unsent := rest, productChan := productChan s @ [p]\<rparr>"
  | (CloseProductChan) "a = CloseProductChan" "unsent s = []" "\<not> productChanClosed s"
      "s' = s\<lparr>productChanClosed := True\<rparr>"
  | (Receive) i p rest where "a = Receive i" "i < length (workers s)"
      "workers s ! i = Receiving" "productChan s = p # rest"
      "s' = s\<lparr>productChan := rest, workers := (workers s)[i := Fetching p]\<rparr>"
  | (FetchReturns) i v t p w where "a = FetchReturns i v t" "i < length (workers s)"
      "workers s ! i = Fetching p"
      "w = (case priceWorker_body p v t of Some entry \<Rightarrow> Sending entry | None \<Rightarrow> Receiving)"
      "s' = s\<lparr>workers := (workers s)[i := w], events := events s @ [Fetched i p v]\<rparr>"
  | (SendResult) i e where "a = SendResult i" "i < length (workers s)"
      "workers s ! i = Sending e" "length (resultChan s) < capacity s"
      "s' = s\<lparr>resultChan := resultChan s @ [e], workers := (workers s)[i := Receiving],
               events := events s @ [Forwarded i e]\<rparr>"
  | (WorkerDone) i where "a = WorkerDone i" "i < length (workers s)"
      "workers s ! i = Receiving" "productChan s = []" "productChanClosed s"
      "s' = s\<lparr>workers := (workers s)[i := Exited]\<rparr>"
  | (CloseResultChan) "a = CloseResultChan" "\<forall>w\<in>set (workers s). w = Exited"
      "\<not> resultChanClosed s" "s' = s\<lparr>resultChanClosed := True\<rparr>"
  | (Collect) io e rest d' err where "a = Collect io" "\<not> returned s"
      "resultChan s = e # rest"
      "InsertPriceEntry (store s) (ProductID e) (Price e) (Timestamp e) io = (d', err)"
      "s' = s\<lparr>resultChan := rest, store := d',
               events := events s @
                 [Inserted e err,
                  Logged (case err of Some x \<Rightarrow> LogFailedToSave (ProductID e) x
                          | None \<Rightarrow> LogSaved (ProductID e) (Price e))]\<rparr>"
  | (Return) "a = Return" "resultChan s = []" "resultChanClosed s" "\<not> returned s"
      "s' = s\<lparr>returned := True\<rparr>"
proof (cases a)
  case SendProduct
  with assms that(1) show ?thesis by (auto split: list.splits if_splits)
next
  case CloseProductChan
  with assms that(2) show ?thesis by (auto split: if_splits)
next
  case (Receive i)
  with assms that(3) show ?thesis by (auto split: list.splits if_splits)
next
  case (FetchReturns i v t)
  with assms that(4) show ?thesis by (auto split: if_splits worker.splits)
next
  case (SendResult i)
  with assms that(5) show ?thesis by (auto split: if_splits worker.splits)
next
  case (WorkerDone i)
  with assms that(6) show ?thesis by (auto split: if_splits)
next
  case CloseResultChan
  with assms that(7) show ?thesis by (auto split: if_splits)
next
  case (Collect io)
  with assms that(8) show ?thesis by (auto split: if_splits list.splits prod.splits)
next
  case Return
  with assms that(9) show ?thesis by (auto split: if_splits)
qed

lemma events_Nil [simp]:
  "fetched [] = []" "accepted [] = []" "forwarded [] = []" "attempted [] = []" "saved [] = []"
  "measured [] = []"
  by (simp_all add: fetched_def accepted_def forwarded_def attempted_def saved_def measured_def)

lemma events_Cons [simp]:
  "fetched (ev # evs) = fetch_of ev @ fetched evs"
  "accepted (ev # evs) = accept_of ev @ accepted evs"
  "forwarded (ev # evs) = forward_of ev @ forwarded evs"
  "attempted (ev # evs) = attempt_of ev @ attempted evs"
  "saved (ev # evs) = saved_of ev @ saved evs"
  "measured (ev # evs) = measured_of ev @ measured evs"
  by (simp_all add: fetched_def accepted_def forwarded_def attempted_def saved_def measured_def)

lemma events_append [simp]:
  "fetched (xs @ ys) = fetched xs @ fetched ys"
  "accepted (xs @ ys) = accepted xs @ accepted ys"
  "forwarded (xs @ ys) = forwarded xs @ forwarded ys"
  "attempted (xs @ ys) = attempted xs @ attempted ys"
  "saved (xs @ ys) = saved xs @ saved ys"
  by (simp_all add: fetched_def accepted_def forwarded_def attempted_def saved_def)

text \<open>The state a worker is in after its fetch has returned.\<close>

lemma body_worker:
  "fetching (case priceWorker_body p v t of Some entry \<Rightarrow> Sending entry | None \<Rightarrow> Receiving) = []"
  "(case priceWorker_body p v t of Some entry \<Rightarrow> Sending entry | None \<Rightarrow> Receiving) \<noteq> Exited"
  "weight (case priceWorker_body p v t of Some entry \<Rightarrow> Sending entry | None \<Rightarrow> Receiving) \<le> 3"
  "length (sending (case priceWorker_body p v t of Some entry \<Rightarrow> Sending entry
                    | None \<Rightarrow> Receiving)) \<le> 1"
  "map measurement (sending (case priceWorker_body p v t of Some entry \<Rightarrow> Sending entry
                             | None \<Rightarrow> Receiving)) = accept_of (Fetched i p v)"
  by (simp_all add: priceWorker_body_def measurement_def split: option.splits)

text \<open>Replacing one worker of the list.\<close>

lemma update_concat_mset:
  "i < length ws \<Longrightarrow>
     mset (concat (map f (ws[i := w]))) + mset (f (ws ! i)) = mset (concat (map f ws)) + mset (f w)"
proof (induction ws arbitrary: i)
  case Nil
  then show ?case by simp
next
  case (Cons a ws)
  show ?case
  proof (cases i)
    case 0
    then show ?thesis by simp
  next
    case (Suc j)
    with Cons.prems have "j < length ws" by simp
    from Cons.IH [OF this] show ?thesis using Suc by (simp add: ac_simps)
  qed
qed

lemma update_concat_length:
  "i < length ws \<Longrightarrow>
     length (concat (map f (ws[i := w]))) + length (f (ws ! i))
       = length (concat (map f ws)) + length (f w)"
  using update_concat_mset [of i ws f w, THEN arg_cong, of size] by simp

lemma update_weight:
  "i < length ws \<Longrightarrow>
     sum_list (map g (ws[i := w])) + g (ws ! i) = sum_list (map g ws) + (g w :: nat)"
proof (induction ws arbitrary: i)
  case Nil
  then show ?case by simp
next
  case (Cons a ws)
  show ?case
  proof (cases i)
    case 0
    then show ?thesis by simp
  next
    case (Suc j)
    with Cons.prems have "j < length ws" by simp
    from Cons.IH [OF this] show ?thesis using Suc by simp
  qed
qed

lemma set_update_cases:
  "x \<in> set (ws[i := w]) \<Longrightarrow> x = w \<or> x \<in> set ws"
  using set_update_subset_insert [of ws i w] by auto

subsection \<open>Every action brings the round nearer to its return\<close>

lemma step_remaining:
  assumes "step a s = Some s'"
  shows "remaining s' < remaining s"
  using assms
proof (cases rule: step_cases)
  case (Receive i p rest)
  with update_weight [of i "workers s" weight "Fetching p"] show ?thesis
    by (simp add: remaining_def)
next
  case (FetchReturns i v t p w)
  with update_weight [of i "workers s" weight w] body_worker(3) [of p v t] show ?thesis
    by (simp add: remaining_def)
next
  case (SendResult i e)
  with update_weight [of i "workers s" weight Receiving] show ?thesis
    by (simp add: remaining_def)
next
  case (WorkerDone i)
  with update_weight [of i "workers s" weight Exited] show ?thesis
    by (simp add: remaining_def)
qed (simp_all add: remaining_def)

subsection \<open>Every action keeps the invariants\<close>

lemma step_inv_flow:
  assumes "step a s = Some s'" "inv_flow snapshot s"
  shows "inv_flow snapshot s'"
  using assms(1)
proof (cases rule: step_cases)
  case (Receive i p rest)
  with update_concat_mset [of i "workers s" fetching "Fetching p"] assms(2) show ?thesis
    by (simp add: inv_flow_def)
next
  case (FetchReturns i v t p w)
  with update_concat_mset [of i "workers s" fetching w] body_worker(1) [of p v t]
  have "mset (concat (map fetching (workers s)))
        = mset (concat (map fetching ((workers s)[i := w]))) + {#p#}" by simp
  with assms(2) FetchReturns(5) show ?thesis by (simp add: inv_flow_def)
next
  case (SendResult i e)
  with update_concat_mset [of i "workers s" fetching Receiving] assms(2) show ?thesis
    by (simp add: inv_flow_def)
next
  case (WorkerDone i)
  with update_concat_mset [of i "workers s" fetching Exited] assms(2) show ?thesis
    by (simp add: inv_flow_def)
qed (use assms(2) in \<open>simp_all add: inv_flow_def\<close>)

lemma step_inv_closed:
  assumes "step a s = Some s'" "inv_closed s"
  shows "inv_closed s'"
  using assms(1)
proof (cases rule: step_cases)
  case (SendProduct p rest)
  with assms(2) show ?thesis by (auto simp: inv_closed_def)
next
  case CloseProductChan
  with assms(2) show ?thesis by (auto simp: inv_closed_def)
next
  case (Receive i p rest)
  have mem: "workers s ! i \<in> set (workers s)" using Receive(2) by simp
  have a: "Exited \<notin> set (workers s)" using assms(2) Receive(4) by (auto simp: inv_closed_def)
  then have b: "Exited \<notin> set ((workers s)[i := Fetching p])"
    by (auto dest: set_update_cases)
  have c: "\<not> resultChanClosed s" using assms(2) mem Receive(3) by (auto simp: inv_closed_def)
  from assms(2) b c show ?thesis unfolding Receive(5) by (auto simp: inv_closed_def)
next
  case (FetchReturns i v t p w)
  have mem: "workers s ! i \<in> set (workers s)" using FetchReturns(2) by simp
  have c: "\<not> resultChanClosed s"
    using assms(2) mem FetchReturns(3) by (auto simp: inv_closed_def)
  have "w \<noteq> Exited" using FetchReturns(4) body_worker(2) by simp
  then have b: "Exited \<in> set ((workers s)[i := w]) \<Longrightarrow> Exited \<in> set (workers s)"
    by (auto dest: set_update_cases)
  from assms(2) b c show ?thesis unfolding FetchReturns(5) by (auto simp: inv_closed_def)
next
  case (SendResult i e)
  have mem: "workers s ! i \<in> set (workers s)" using SendResult(2) by simp
  have c: "\<not> resultChanClosed s" using assms(2) mem SendResult(3) by (auto simp: inv_closed_def)
  have b: "Exited \<in> set ((workers s)[i := Receiving]) \<Longrightarrow> Exited \<in> set (workers s)"
    by (auto dest: set_update_cases)
  from assms(2) b c show ?thesis unfolding SendResult(5) by (auto simp: inv_closed_def)
next
  case (WorkerDone i)
  have mem: "workers s ! i \<in> set (workers s)" using WorkerDone(2) by simp
  have c: "\<not> resultChanClosed s" using assms(2) mem WorkerDone(3) by (auto simp: inv_closed_def)
  from assms(2) c WorkerDone(4,5) show ?thesis unfolding WorkerDone(6)
    by (auto simp: inv_closed_def)
next
  case CloseResultChan
  with assms(2) show ?thesis by (auto simp: inv_closed_def)
next
  case (Collect io e rest d' err)
  with assms(2) show ?thesis by (auto simp: inv_closed_def)
next
  case Return
  with assms(2) show ?thesis by (auto simp: inv_closed_def)
qed

lemma step_inv_fifo:
  assumes "step a s = Some s'" "inv_fifo s"
  shows "inv_fifo s'"
  using assms(1)
  by (cases rule: step_cases) (use assms(2) in \<open>simp_all add: inv_fifo_def\<close>)

lemma step_inv_accept:
  assumes "step a s = Some s'" "inv_accept s"
  shows "inv_accept s'"
  using assms(1)
proof (cases rule: step_cases)
  case (Receive i p rest)
  with update_concat_mset [of i "workers s" sending "Fetching p"] assms(2) show ?thesis
    by (simp add: inv_accept_def)
next
  case (FetchReturns i v t p w)
  with update_concat_mset [of i "workers s" sending w]
  have "mset (concat (map sending ((workers s)[i := w])))
        = mset (concat (map sending (workers s))) + mset (sending w)" by simp
  then have "mset (map measurement (concat (map sending ((workers s)[i := w]))))
        = mset (map measurement (concat (map sending (workers s))))
          + mset (map measurement (sending w))"
    by (metis image_mset_union mset_map)
  with assms(2) FetchReturns(4,5) body_worker(5) [of p v t i] show ?thesis
    by (simp add: inv_accept_def)
next
  case (SendResult i e)
  with update_concat_mset [of i "workers s" sending Receiving]
  have "mset (concat (map sending (workers s)))
        = mset (concat (map sending ((workers s)[i := Receiving]))) + {#e#}" by simp
  then have "mset (map measurement (concat (map sending (workers s))))
        = mset (map measurement (concat (map sending ((workers s)[i := Receiving]))))
          + {#measurement e#}"
    by (metis image_mset_add_mset image_mset_union mset_map image_mset_empty)
  with assms(2) SendResult(5) show ?thesis by (simp add: inv_accept_def)
next
  case (WorkerDone i)
  with update_concat_mset [of i "workers s" sending Exited] assms(2) show ?thesis
    by (simp add: inv_accept_def)
qed (use assms(2) in \<open>simp_all add: inv_accept_def\<close>)

lemma step_inv_cap:
  assumes "step a s = Some s'" "inv_cap s"
  shows "inv_cap s'"
  using assms(1)
proof (cases rule: step_cases)
  case (Receive i p rest)
  with update_concat_length [of i "workers s" fetching "Fetching p"]
    update_concat_length [of i "workers s" sending "Fetching p"] assms(2)
  show ?thesis by (simp add: inv_cap_def)
next
  case (FetchReturns i v t p w)
  with update_concat_length [of i "workers s" fetching w]
    update_concat_length [of i "workers s" sending w]
    body_worker(1,4) [of p v t] assms(2)
  show ?thesis by (simp add: inv_cap_def)
next
  case (SendResult i e)
  with update_concat_length [of i "workers s" fetching Receiving]
    update_concat_length [of i "workers s" sending Receiving] assms(2)
  show ?thesis by (simp add: inv_cap_def)
next
  case (WorkerDone i)
  with update_concat_length [of i "workers s" fetching Exited]
    update_concat_length [of i "workers s" sending Exited] assms(2)
  show ?thesis by (simp add: inv_cap_def)
qed (use assms(2) in \<open>simp_all add: inv_cap_def\<close>)

lemma step_inv_store:
  assumes "step a s = Some s'" "inv_store d s"
  shows "inv_store d s'"
  using assms(1)
proof (cases rule: step_cases)
  case (Collect io e rest d' err)
  from assms(2) obtain new where new:
    "products_table (store s) = products_table d" "foreign_keys (store s) = foreign_keys d"
    "price_entries_table (store s) = price_entries_table d @ new"
    "map row_data new = map row_data (saved (events s))"
    by (auto simp: inv_store_def)
  show ?thesis
  proof (cases err)
    case None
    define row where "row = \<lparr>EntryID = seq (store s) + 1, ProductID = ProductID e,
      Price = Price e, Timestamp = Timestamp e\<rparr>"
    from None Collect(4) have d': "d' = (store s)\<lparr>price_entries_table :=
        price_entries_table (store s) @ [row], seq := seq (store s) + 1\<rparr>"
      by (auto simp: InsertPriceEntry_def row_def split: option.splits if_splits)
    have 1: "products_table (store s') = products_table d"
      and 2: "foreign_keys (store s') = foreign_keys d"
      and 3: "price_entries_table (store s') = price_entries_table d @ (new @ [row])"
      using new(1,2,3) by (simp_all add: Collect(5) d')
    have 4: "map row_data (new @ [row]) = map row_data (saved (events s'))"
      using new(4) None by (simp add: Collect(5) row_data_def row_def)
    from 1 2 3 4 show ?thesis unfolding inv_store_def by blast
  next
    case (Some x)
    with Collect(4) have "d' = store s"
      by (auto simp: InsertPriceEntry_def split: option.splits if_splits)
    with assms(2) Collect(5) Some show ?thesis by (simp add: inv_store_def)
  qed
qed (use assms(2) in \<open>simp_all add: inv_store_def\<close>)

lemma step_inv_workers:
  assumes "step a s = Some s'" "inv_workers s"
  shows "inv_workers s'"
  using assms(1)
  by (cases rule: step_cases) (use assms(2) in \<open>auto simp: inv_workers_def\<close>)

subsection \<open>Executions\<close>

lemma run_preserves:
  assumes "\<And>a s s'. step a s = Some s' \<Longrightarrow> P s \<Longrightarrow> P s'"
  shows "run as s = Some s' \<Longrightarrow> P s \<Longrightarrow> P s'"
proof (induction as arbitrary: s)
  case Nil
  then show ?case by simp
next
  case (Cons a as)
  from Cons.prems(1) obtain s1 where s1: "step a s = Some s1" "run as s1 = Some s'"
    by (auto split: option.splits)
  from assms [OF s1(1) Cons.prems(2)] Cons.IH [OF s1(2)] show ?case by blast
qed

lemma run_remaining: "run as s = Some s' \<Longrightarrow> remaining s' + length as \<le> remaining s"
proof (induction as arbitrary: s)
  case Nil
  then show ?case by simp
next
  case (Cons a as)
  from Cons.prems obtain s1 where s1: "step a s = Some s1" "run as s1 = Some s'"
    by (auto split: option.splits)
  from step_remaining [OF s1(1)] Cons.IH [OF s1(2)] show ?case by simp
qed

lemma idle_workers [simp]:
  "concat (map fetching (replicate n Receiving)) = []"
  "concat (map sending (replicate n Receiving)) = []"
  by (induction n) simp_all

lemma start_inv:
  "inv_flow snapshot (start snapshot d)" "inv_closed (start snapshot d)"
  "inv_fifo (start snapshot d)" "inv_accept (start snapshot d)" "inv_cap (start snapshot d)"
  "inv_store d (start snapshot d)" "inv_workers (start snapshot d)"
  by (simp_all add: start_def inv_flow_def inv_closed_def inv_fifo_def inv_accept_def
      inv_cap_def inv_store_def inv_workers_def)

lemma start_remaining: "remaining (start snapshot d) = 5 * length snapshot + 8"
  by (simp add: start_def remaining_def numWorkers_def sum_list_replicate)

lemma all_exited_idle:
  "\<forall>w\<in>set ws. w = Exited \<Longrightarrow> concat (map fetching ws) = [] \<and> concat (map sending ws) = []"
  by (induction ws) simp_all

text \<open>A round that has not returned can always take another action: no goroutine
  waits for ever on a channel.\<close>

lemma progress:
  assumes "inv_cap s" "\<not> returned s"
  shows "\<exists>a s'. step a s = Some s'"
proof (cases "unsent s")
  case (Cons p rest)
  with assms(1) have "length (productChan s) < capacity s" by (simp add: inv_cap_def)
  with Cons have "step SendProduct s \<noteq> None" by simp
  then show ?thesis by blast
next
  case Nil
  show ?thesis
  proof (cases "productChanClosed s")
    case False
    with Nil have "step CloseProductChan s \<noteq> None" by simp
    then show ?thesis by blast
  next
    case True
    show ?thesis
    proof (cases "\<forall>w\<in>set (workers s). w = Exited")
      case False
      then obtain i where i: "i < length (workers s)" "workers s ! i \<noteq> Exited"
        by (auto simp: in_set_conv_nth)
      show ?thesis
      proof (cases "workers s ! i")
        case Receiving
        show ?thesis
        proof (cases "productChan s")
          case Nil
          with i Receiving True have "step (WorkerDone i) s \<noteq> None" by simp
          then show ?thesis by blast
        next
          case (Cons p rest)
          with i Receiving have "step (Receive i) s \<noteq> None" by simp
          then show ?thesis by blast
        qed
      next
        case (Fetching p)
        with i have "step (FetchReturns i NaN 0) s \<noteq> None" by simp
        then show ?thesis by blast
      next
        case (Sending e)
        with update_concat_length [of i "workers s" sending Receiving] i
        have "1 \<le> length (concat (map sending (workers s)))" by simp
        with assms(1) have "length (resultChan s) < capacity s" by (simp add: inv_cap_def)
        with i Sending have "step (SendResult i) s \<noteq> None" by simp
        then show ?thesis by blast
      next
        case Exited
        with i show ?thesis by simp
      qed
    next
      case allx: True
      show ?thesis
      proof (cases "resultChanClosed s")
        case False
        with allx have "step CloseResultChan s \<noteq> None" by simp
        then show ?thesis by blast
      next
        case True
        show ?thesis
        proof (cases "resultChan s")
          case Nil
          with True assms(2) have "step Return s \<noteq> None" by simp
          then show ?thesis by blast
        next
          case (Cons e rest)
          with assms(2) have "step (Collect None) s \<noteq> None" by (simp split: prod.splits)
          then show ?thesis by blast
        qed
      qed
    qed
  qed
qed

lemma can_return:
  "inv_cap s \<Longrightarrow> \<exists>as s'. run as s = Some s' \<and> returned s'"
proof (induction "remaining s" arbitrary: s rule: less_induct)
  case less
  show ?case
  proof (cases "returned s")
    case True
    then have "run [] s = Some s \<and> returned s" by simp
    then show ?thesis by blast
  next
    case False
    from progress [OF less.prems False] obtain a s1 where a: "step a s = Some s1" by blast
    from less.hyps [OF step_remaining [OF a] step_inv_cap [OF a less.prems]]
    obtain as s' where "run as s1 = Some s'" "returned s'" by blast
    with a have "run (a # as) s = Some s' \<and> returned s'" by simp
    then show ?thesis by blast
  qed
qed

lemma run_append:
  "run (as @ bs) s = (case run as s of None \<Rightarrow> None | Some s' \<Rightarrow> run bs s')"
  by (induction as arbitrary: s) (simp_all split: option.splits)

text \<open>However the goroutines have been interleaved so far, the round can be carried on
  to its return, and no execution has more than \<open>5 * N + 8\<close> actions: the round
  returns under every interleaving.\<close>

lemma round_always_returns:
  assumes "run as (start snapshot d) = Some s"
  shows "length as \<le> 5 * length snapshot + 8"
    and "\<exists>bs s'. run (as @ bs) (start snapshot d) = Some s' \<and> returned s'"
proof -
  from run_remaining [OF assms] show "length as \<le> 5 * length snapshot + 8"
    by (simp add: start_remaining)
  have "inv_cap s"
    using run_preserves [of inv_cap, OF step_inv_cap assms start_inv(5)] .
  from can_return [OF this] obtain bs s' where "run bs s = Some s'" "returned s'" by blast
  with assms have "run (as @ bs) (start snapshot d) = Some s' \<and> returned s'"
    by (simp add: run_append)
  then show "\<exists>bs s'. run (as @ bs) (start snapshot d) = Some s' \<and> returned s'" by blast
qed

subsection \<open>The round at its return\<close>

lemma round_result:
  assumes "trackAllProducts pt snapshot schedule = Some (pt', evs)" "snapshot \<noteq> []"
  obtains s where "run schedule (start snapshot (db pt)) = Some s" "returned s"
    "pt' = pt\<lparr>db := store s\<rparr>" "evs = events s"
  using assms by (auto simp: trackAllProducts_def split: option.splits if_splits)

lemma round_snapshot:
  "trackAllProducts pt snapshot schedule = Some r \<Longrightarrow> is_snapshot pt snapshot"
  by (auto simp: trackAllProducts_def split: if_splits)

lemma returned_pool:
  assumes "run schedule (start snapshot d) = Some s" "returned s"
  shows "resultChan s = []" "unsent s = []" "productChan s = []"
    "concat (map fetching (workers s)) = []" "concat (map sending (workers s)) = []"
proof -
  have c: "inv_closed s"
    using run_preserves [of inv_closed, OF step_inv_closed assms(1) start_inv(2)] .
  have w: "inv_workers s"
    using run_preserves [of inv_workers, OF step_inv_workers assms(1) start_inv(7)] .
  from c assms(2) have closed: "resultChanClosed s" and "resultChan s = []"
    by (auto simp: inv_closed_def)
  then show "resultChan s = []" by simp
  from c closed have ex: "\<forall>w\<in>set (workers s). w = Exited" by (auto simp: inv_closed_def)
  from w have "workers s \<noteq> []" by (auto simp: inv_workers_def numWorkers_def)
  then obtain w0 where "w0 \<in> set (workers s)" by (cases "workers s") auto
  with ex have "Exited \<in> set (workers s)" by auto
  with c show "unsent s = []" "productChan s = []" by (auto simp: inv_closed_def)
  from all_exited_idle [OF ex]
  show "concat (map fetching (workers s)) = []" "concat (map sending (workers s)) = []"
    by simp_all
qed

lemma returned_events:
  assumes "run schedule (start snapshot d) = Some s" "returned s"
  shows "mset (fetched (events s)) = mset snapshot"
    "attempted (events s) = forwarded (events s)"
    "mset (map measurement (forwarded (events s))) = mset (accepted (events s))"
    "inv_store d s"
    "\<forall>i\<in>set (concat (map worker_of (events s))). i < numWorkers"
proof -
  note fin = returned_pool [OF assms]
  have "inv_flow snapshot s"
    using run_preserves [of "inv_flow snapshot", OF step_inv_flow assms(1) start_inv(1)] .
  then show "mset (fetched (events s)) = mset snapshot" unfolding inv_flow_def fin by simp
  have "inv_fifo s"
    using run_preserves [of inv_fifo, OF step_inv_fifo assms(1) start_inv(3)] .
  then show "attempted (events s) = forwarded (events s)" unfolding inv_fifo_def fin by simp
  have "inv_accept s"
    using run_preserves [of inv_accept, OF step_inv_accept assms(1) start_inv(4)] .
  then show "mset (map measurement (forwarded (events s))) = mset (accepted (events s))"
    unfolding inv_accept_def fin by simp
  show "inv_store d s"
    using run_preserves [of "inv_store d", OF step_inv_store assms(1) start_inv(6)] .
  have "inv_workers s"
    using run_preserves [of inv_workers, OF step_inv_workers assms(1) start_inv(7)] .
  then show "\<forall>i\<in>set (concat (map worker_of (events s))). i < numWorkers"
    by (simp add: inv_workers_def)
qed

lemma round_summary:
  assumes "trackAllProducts pt snapshot schedule = Some (pt', evs)"
  shows "mset (fetched evs) = mset snapshot"
    "attempted evs = forwarded evs"
    "mset (map measurement (forwarded evs)) = mset (accepted evs)"
    "\<forall>i\<in>set (concat (map worker_of evs)). i < numWorkers"
    "products_table (db pt') = products_table (db pt)"
    "\<exists>new. price_entries_table (db pt') = price_entries_table (db pt) @ new
            \<and> map row_data new = map row_data (saved evs)"
    "products pt' = products pt"
proof -
  have "mset (fetched evs) = mset snapshot \<and> attempted evs = forwarded evs
    \<and> mset (map measurement (forwarded evs)) = mset (accepted evs)
    \<and> (\<forall>i\<in>set (concat (map worker_of evs)). i < numWorkers)
    \<and> products_table (db pt') = products_table (db pt)
    \<and> (\<exists>new. price_entries_table (db pt') = price_entries_table (db pt) @ new
            \<and> map row_data new = map row_data (saved evs))
    \<and> products pt' = products pt"
  proof (cases "snapshot = []")
    case True
    with assms show ?thesis by (simp add: trackAllProducts_def split: if_splits)
  next
    case False
    from round_result [OF assms False] obtain s where s:
      "run schedule (start snapshot (db pt)) = Some s" "returned s"
      "pt' = pt\<lparr>db := store s\<rparr>" "evs = events s" by blast
    from returned_events [OF s(1,2)] show ?thesis unfolding s(3,4)
      by (simp add: inv_store_def)
  qed
  then show "mset (fetched evs) = mset snapshot"
    "attempted evs = forwarded evs"
    "mset (map measurement (forwarded evs)) = mset (accepted evs)"
    "\<forall>i\<in>set (concat (map worker_of evs)). i < numWorkers"
    "products_table (db pt') = products_table (db pt)"
    "\<exists>new. price_entries_table (db pt') = price_entries_table (db pt) @ new
            \<and> map row_data new = map row_data (saved evs)"
    "products pt' = products pt"
    by blast+
qed

lemma round_can_return:
  assumes "is_snapshot pt snapshot"
  shows "\<exists>schedule result. trackAllProducts pt snapshot schedule = Some result"
proof -
  from can_return [OF start_inv(5), of snapshot "db pt"]
  obtain as s' where "run as (start snapshot (db pt)) = Some s'" "returned s'" by blast
  with assms have "trackAllProducts pt snapshot as \<noteq> None" by (simp add: trackAllProducts_def)
  then show ?thesis by blast
qed

lemma snapshot_distinct:
  assumes "registry_ok pt" "is_snapshot pt snapshot"
  shows "distinct snapshot"
proof -
  have e: "map ID (map snd (products pt)) = map fst (products pt)"
    using assms(1) by (auto simp: registry_ok_def)
  have "distinct (map ID (map snd (products pt)))"
    unfolding e using assms(1) by (simp add: registry_ok_def)
  then have "distinct (map snd (products pt))" using distinct_map by blast
  with assms(2) show ?thesis
    using mset_eq_imp_distinct_iff [of snapshot "map snd (products pt)"]
    by (simp add: is_snapshot_def)
qed

lemma count_fetch_events:
  "count (mset (fetched evs)) p = length (filter (\<lambda>ev. fetch_of ev = [p]) evs)"
proof (induction evs)
  case Nil
  then show ?case by simp
next
  case (Cons ev evs)
  then show ?case by (cases ev) simp_all
qed



lemma accepted_fetched: "x \<in> set (accepted evs) \<Longrightarrow> fst x \<in> ID ` set (fetched evs)"
proof (induction evs)
  case Nil
  then show ?case by simp
next
  case (Cons ev evs)
  then show ?case by (cases ev) (auto split: if_splits)
qed

lemma saved_subset: "set (saved evs) \<subseteq> set (attempted evs)"
proof (induction evs)
  case Nil
  then show ?case by simp
next
  case (Cons ev evs)
  show ?case
  proof (cases ev)
    case (Inserted e err)
    with Cons show ?thesis by (cases err) auto
  qed (use Cons in auto)
qed

lemma forwarded_accepted:
  assumes "trackAllProducts pt snapshot schedule = Some (pt', evs)" "e \<in> set (forwarded evs)"
  shows "measurement e \<in> set (accepted evs)"
proof -
  from assms(2) have "measurement e \<in># mset (map measurement (forwarded evs))" by simp
  then show ?thesis unfolding round_summary(3) [OF assms(1)] by simp
qed


text \<open>The rows a round adds are rows of entries that were put on \<^verbatim>\<open>resultChan\<close>.\<close>

lemma new_rows_forwarded:
  assumes "trackAllProducts pt snapshot schedule = Some (pt', evs)"
  obtains new where "price_entries_table (db pt') = price_entries_table (db pt) @ new"
    "map row_data new = map row_data (saved evs)"
    "\<forall>row\<in>set new. \<exists>e\<in>set (forwarded evs). row_data row = row_data e"
proof -
  from round_summary(6) [OF assms] obtain new where new:
    "price_entries_table (db pt') = price_entries_table (db pt) @ new"
    "map row_data new = map row_data (saved evs)" by blast
  have sub: "set (saved evs) \<subseteq> set (forwarded evs)"
    using saved_subset [of evs] round_summary(2) [OF assms] by simp
  have "\<forall>row\<in>set new. \<exists>e\<in>set (forwarded evs). row_data row = row_data e"
  proof
    fix row assume "row \<in> set new"
    then have "row_data row \<in> set (map row_data new)" by simp
    then have "row_data row \<in> row_data ` set (saved evs)" unfolding new(2) by simp
    with sub show "\<exists>e\<in>set (forwarded evs). row_data row = row_data e" by auto
  qed
  with new that show ?thesis by blast
qed

subsection \<open>The sample rounds, evaluated\<close>

lemmas round_eval = trackAllProducts_def is_snapshot_def start_def numWorkers_def
  priceWorker_body_def InsertPriceEntry_def eval_nat_numeral

lemmas sample_eval = laptop_def phone_def laptop_entry_def phone_entry_def sample_stored_def

lemma sample_round:
  "trackAllProducts sample_tracker [laptop, phone] sample_schedule
     = Some (sample_stored (Finite 1184.5), sample_events)"
  by (simp add: sample_tracker_eq sample_schedule_def sample_events_def round_eval)
    (simp add: sample_eval sample_tracker_eq)

lemma failing_round:
  "trackAllProducts sample_tracker [laptop, phone] failing_schedule
     = Some (sample_stored (Finite 1184.5), failing_events)"
  by (simp add: sample_tracker_eq failing_schedule_def failing_events_def round_eval)
    (simp add: sample_eval sample_tracker_eq)



lemma sample_registry:
  "registry_ok sample_tracker" "is_snapshot sample_tracker [laptop, phone]"
  by (simp_all add: registry_ok_def is_snapshot_def sample_tracker_eq laptop_def phone_def)

lemma sample_states:
  "run (take 5 sample_schedule) (start [laptop, phone] (db sample_tracker))
     = Some fetches_under_way"
  "run (take 8 failing_schedule) (start [laptop, phone] (db sample_tracker))
     = Some entry_waiting"
  by (simp_all add: sample_schedule_def failing_schedule_def fetches_under_way_def
      entry_waiting_def start_def numWorkers_def priceWorker_body_def eval_nat_numeral
      sample_eval)

subsection \<open>What a worker forwards\<close>








subsection \<open>One fetch for each product of the snapshot\<close>

text \<open>
  Claim C7. Let the registry be a map (one pair per id, as it is in every tracker the
  program reaches) and \<open>snapshot\<close> the slice taken from it, of \<open>N\<close> products. The round
  returns under every interleaving: whatever actions have been taken, they are at most
  \<open>5 * N + 8\<close> and can be carried on to the return. In every execution that returns,
  \<^verbatim>\<open>fetchPrice\<close> has been called exactly \<open>N\<close> times, the products fetched are those of
  the snapshot, each product of the snapshot has exactly one fetch, and every fetch was
  made by one of the \<^verbatim>\<open>numWorkers\<close> workers.
\<close>

theorem round_fetches_each_product_once:
  assumes "registry_ok pt" "is_snapshot pt snapshot"
  shows "(\<exists>schedule result. trackAllProducts pt snapshot schedule = Some result)
    \<and> (\<forall>as s. run as (start snapshot (db pt)) = Some s \<longrightarrow>
         length as \<le> 5 * length snapshot + 8
         \<and> (\<exists>bs s'. run (as @ bs) (start snapshot (db pt)) = Some s' \<and> returned s'))
    \<and> (\<forall>schedule pt' evs. trackAllProducts pt snapshot schedule = Some (pt', evs) \<longrightarrow>
         length (fetched evs) = length snapshot
         \<and> mset (fetched evs) = mset snapshot
         \<and> (\<forall>p\<in>set snapshot. length (filter (\<lambda>ev. fetch_of ev = [p]) evs) = 1)
         \<and> (\<forall>ev\<in>set evs. \<forall>i\<in>set (worker_of ev). i < numWorkers))"
proof -
  have "length (fetched evs) = length snapshot
         \<and> mset (fetched evs) = mset snapshot
         \<and> (\<forall>p\<in>set snapshot. length (filter (\<lambda>ev. fetch_of ev = [p]) evs) = 1)
         \<and> (\<forall>ev\<in>set evs. \<forall>i\<in>set (worker_of ev). i < numWorkers)"
    if r: "trackAllProducts pt snapshot schedule = Some (pt', evs)" for schedule pt' evs
  proof -
    note m = round_summary(1) [OF r]
    from m have l: "length (fetched evs) = length snapshot" by (rule mset_eq_length)
    have d: "distinct snapshot" using snapshot_distinct [OF assms] .
    have o: "\<forall>p\<in>set snapshot. length (filter (\<lambda>ev. fetch_of ev = [p]) evs) = 1"
    proof
      fix p assume "p \<in> set snapshot"
      with d have "count (mset snapshot) p = 1" by (simp add: distinct_count_atmost_1)
      then show "length (filter (\<lambda>ev. fetch_of ev = [p]) evs) = 1"
        unfolding m [symmetric] count_fetch_events .
    qed
    from round_summary(4) [OF r] have "\<forall>ev\<in>set evs. \<forall>i\<in>set (worker_of ev). i < numWorkers"
      by auto
    with l m o show ?thesis by blast
  qed
  moreover have "length as \<le> 5 * length snapshot + 8
         \<and> (\<exists>bs s'. run (as @ bs) (start snapshot (db pt)) = Some s' \<and> returned s')"
    if "run as (start snapshot (db pt)) = Some s" for as s
    using round_always_returns [OF that] by blast
  ultimately show ?thesis using round_can_return [OF assms(2)] by blast
qed

text \<open>The sample round over the two products of the sample tracker: two fetches, the
  phone's by worker 3 and the laptop's by worker 0.\<close>

theorem round_fetches_each_product_once_witness:
  "registry_ok sample_tracker \<and> is_snapshot sample_tracker [laptop, phone]
   \<and> trackAllProducts sample_tracker [laptop, phone] sample_schedule
       = Some (sample_stored (Finite 1184.5), sample_events)
   \<and> fetched sample_events = [phone, laptop]
   \<and> length (fetched sample_events) = length [laptop, phone]
   \<and> length (filter (\<lambda>ev. fetch_of ev = [laptop]) sample_events) = 1
   \<and> length (filter (\<lambda>ev. fetch_of ev = [phone]) sample_events) = 1
   \<and> run (take 5 sample_schedule) (start [laptop, phone] (db sample_tracker))
       = Some fetches_under_way
   \<and> (\<exists>bs s'. run (take 5 sample_schedule @ bs) (start [laptop, phone] (db sample_tracker))
          = Some s' \<and> returned s')"
proof -
  from round_fetches_each_product_once [OF sample_registry] sample_states(1)
  have "\<exists>bs s'. run (take 5 sample_schedule @ bs) (start [laptop, phone] (db sample_tracker))
          = Some s' \<and> returned s'"
    by blast
  moreover
  from round_fetches_each_product_once [OF sample_registry] sample_round
  have "length (fetched sample_events) = length [laptop, phone]
     \<and> (\<forall>p\<in>set [laptop, phone]. length (filter (\<lambda>ev. fetch_of ev = [p]) sample_events) = 1)"
    by blast
  then have "length (fetched sample_events) = length [laptop, phone]
     \<and> length (filter (\<lambda>ev. fetch_of ev = [laptop]) sample_events) = 1
     \<and> length (filter (\<lambda>ev. fetch_of ev = [phone]) sample_events) = 1"
    by simp
  moreover have "fetched sample_events = [phone, laptop]" by (simp add: sample_events_def)
  ultimately show ?thesis using sample_registry sample_round sample_states(1) by blast
qed

subsection \<open>A failed insert\<close>

text \<open>
  Claim C8. When the collecting loop takes an entry from \<^verbatim>\<open>resultChan\<close> and the insert
  fails, the store is left as it was, the call and one log line are all that is
  recorded, and the loop goes on (the round has not returned and the other entries are
  still in the channel). In every round that has returned, the entries given to
  \<^verbatim>\<open>InsertPriceEntry\<close> are the entries forwarded, each once and in the same order,
  whatever the result of each insert; \<^verbatim>\<open>products\<close> is unchanged and the rows added to
  \<^verbatim>\<open>price_entries\<close> are the entries whose insert succeeded.
\<close>

theorem persistence_failure_does_not_abort_round:
  "(\<not> returned s \<and> resultChan s = e # rest \<longrightarrow>
      step (Collect (Some m)) s
        = Some (s\<lparr>resultChan := rest,
                  events := events s @
                    [Inserted e (Some (DriverError m)),
                     Logged (LogFailedToSave (ProductID e) (DriverError m))]\<rparr>))
   \<and> (trackAllProducts pt snapshot schedule = Some (pt', evs) \<longrightarrow>
        attempted evs = forwarded evs
        \<and> products_table (db pt') = products_table (db pt)
        \<and> (\<exists>new. price_entries_table (db pt') = price_entries_table (db pt) @ new
              \<and> map row_data new = map row_data (saved evs)))"
proof -
  have "step (Collect (Some m)) s
        = Some (s\<lparr>resultChan := rest,
                  events := events s @
                    [Inserted e (Some (DriverError m)),
                     Logged (LogFailedToSave (ProductID e) (DriverError m))]\<rparr>)"
    if "\<not> returned s" "resultChan s = e # rest"
    using that by (simp add: InsertPriceEntry_def)
  with round_summary(2,5,6) [of pt snapshot schedule pt' evs] show ?thesis by blast
qed

text \<open>The sample round in which the insert of the phone's entry fails: the laptop's
  entry, forwarded later, is still inserted and is the one row added.\<close>

theorem persistence_failure_does_not_abort_round_witness:
  "trackAllProducts sample_tracker [laptop, phone] failing_schedule
     = Some (sample_stored (Finite 1184.5), failing_events)
   \<and> attempted failing_events = [phone_entry, laptop_entry (Finite 1184.5)]
   \<and> attempted failing_events = forwarded failing_events
   \<and> saved failing_events = [laptop_entry (Finite 1184.5)]
   \<and> price_entries_table (db (sample_stored (Finite 1184.5)))
       = [\<lparr>EntryID = 1, ProductID = ''laptop-1'', Price = Finite 1184.5, Timestamp = 700\<rparr>]
   \<and> products_table (db (sample_stored (Finite 1184.5))) = products_table (db sample_tracker)
   \<and> run (take 8 failing_schedule) (start [laptop, phone] (db sample_tracker))
       = Some entry_waiting
   \<and> step (Collect (Some ''disk I/O error'')) entry_waiting
       = Some (entry_waiting\<lparr>resultChan := [],
           events := events entry_waiting @
             [Inserted phone_entry (Some (DriverError ''disk I/O error'')),
              Logged (LogFailedToSave ''phone-1'' (DriverError ''disk I/O error''))]\<rparr>)"
proof -
  have h: "\<not> returned entry_waiting \<and> resultChan entry_waiting = phone_entry # []"
    by (simp add: entry_waiting_def)
  from persistence_failure_does_not_abort_round
    [of entry_waiting phone_entry "[]" "''disk I/O error''"] h
  have "step (Collect (Some ''disk I/O error'')) entry_waiting
       = Some (entry_waiting\<lparr>resultChan := [],
           events := events entry_waiting @
             [Inserted phone_entry (Some (DriverError ''disk I/O error'')),
              Logged (LogFailedToSave (ProductID phone_entry)
                (DriverError ''disk I/O error''))]\<rparr>)"
    by blast
  then have s: "step (Collect (Some ''disk I/O error'')) entry_waiting
       = Some (entry_waiting\<lparr>resultChan := [],
           events := events entry_waiting @
             [Inserted phone_entry (Some (DriverError ''disk I/O error'')),
              Logged (LogFailedToSave ''phone-1'' (DriverError ''disk I/O error''))]\<rparr>)"
    by (simp add: phone_entry_def)
  from persistence_failure_does_not_abort_round
    [of entry_waiting phone_entry "[]" "''disk I/O error''" sample_tracker "[laptop, phone]"
      failing_schedule]
    failing_round
  have "attempted failing_events = forwarded failing_events
     \<and> products_table (db (sample_stored (Finite 1184.5))) = products_table (db sample_tracker)"
    by blast
  moreover have "attempted failing_events = [phone_entry, laptop_entry (Finite 1184.5)]"
    "saved failing_events = [laptop_entry (Finite 1184.5)]"
    by (simp_all add: failing_events_def)
  moreover have "price_entries_table (db (sample_stored (Finite 1184.5)))
       = [\<lparr>EntryID = 1, ProductID = ''laptop-1'', Price = Finite 1184.5, Timestamp = 700\<rparr>]"
    by (simp add: sample_stored_def laptop_entry_def)
  ultimately show ?thesis using failing_round s sample_states(2) by blast
qed

subsection \<open>The empty snapshot\<close>

text \<open>
  Claim C9. When the snapshot is empty (which it is exactly when the registry is),
  \<^verbatim>\<open>trackAllProducts\<close> returns at once, whatever the schedule: the tracker and its store
  are as before and the round has no event, so no fetch, no entry forwarded, no insert
  and no log line.
\<close>

theorem empty_snapshot_round_does_nothing:
  assumes "is_snapshot pt snapshot" "snapshot = []"
  shows "products pt = []
    \<and> trackAllProducts pt snapshot schedule = Some (pt, [])
    \<and> (\<forall>pt' evs. trackAllProducts pt snapshot schedule = Some (pt', evs) \<longrightarrow>
          db pt' = db pt \<and> fetched evs = [] \<and> forwarded evs = [] \<and> attempted evs = [])"
  using assms by (simp add: is_snapshot_def trackAllProducts_def)

text \<open>The tracker right after \<^verbatim>\<open>NewPriceTracker\<close> on a new store has no product.\<close>

theorem empty_snapshot_round_does_nothing_witness:
  "is_snapshot (NewPriceTracker createTables None) []
   \<and> trackAllProducts (NewPriceTracker createTables None) [] sample_schedule
       = Some (NewPriceTracker createTables None, [])"
proof -
  have a: "is_snapshot (NewPriceTracker createTables None) []"
    by (simp add: is_snapshot_def NewPriceTracker_def loadProducts_def GetAllProducts_def
        createTables_def)
  from empty_snapshot_round_does_nothing [OF a refl, of sample_schedule] a
  show ?thesis by blast
qed

section \<open>The trackers the program reaches\<close>

lemma set_registry_update: "set (AList.update k v al) \<subseteq> insert (k, v) (set al)"
  by (induction al) auto

lemma load_loop_distinct:
  "distinct (map fst m) \<Longrightarrow> distinct (map fst (load_loop rows m))"
  by (induction rows arbitrary: m) (simp_all add: distinct_update)

lemma load_loop_set:
  "(k, p) \<in> set (load_loop rows m) \<Longrightarrow> (k, p) \<in> set m \<or> (p \<in> set rows \<and> k = ID p)"
proof (induction rows arbitrary: m)
  case Nil
  then show ?case by simp
next
  case (Cons row rows)
  from Cons.prems have "(k, p) \<in> set (load_loop rows (AList.update (ID row) row m))" by simp
  from Cons.IH [OF this] set_registry_update [of "ID row" row m] show ?case by auto
qed

lemma NewPriceTracker_db [simp]: "db (NewPriceTracker d io) = d"
  by (simp add: NewPriceTracker_def loadProducts_def split: sum.splits)

lemma NewPriceTracker_consistent:
  assumes "\<forall>e\<in>set (price_entries_table d). ProductID e \<in> set (map ID (products_table d))"
  shows "consistent (NewPriceTracker d io)"
proof (cases io)
  case (Some m)
  with assms show ?thesis
    by (simp add: consistent_def registry_ok_def NewPriceTracker_def loadProducts_def
        GetAllProducts_def)
next
  case None
  then have reg: "products (NewPriceTracker d io) = load_loop (sort_key Name (products_table d)) []"
    by (simp add: NewPriceTracker_def loadProducts_def GetAllProducts_def)
  have 1: "distinct (map fst (products (NewPriceTracker d io)))"
    unfolding reg by (rule load_loop_distinct) simp
  have 2: "\<forall>(k, p)\<in>set (products (NewPriceTracker d io)).
             ID p = k \<and> k \<in> set (map ID (products_table d))"
    unfolding reg using load_loop_set [of _ _ "sort_key Name (products_table d)" "[]"] by auto
  from 1 2 assms show ?thesis by (auto simp: consistent_def registry_ok_def)
qed

lemma AddProduct_consistent:
  assumes "consistent pt"
  shows "consistent (fst (AddProduct pt product io))"
proof (cases io)
  case (Some m)
  with assms show ?thesis by (simp add: AddProduct_def InsertProduct_def)
next
  case None
  let ?pt' = "fst (AddProduct pt product io)"
  from None have reg: "products ?pt' = AList.update (ID product) product (products pt)"
    and tbl: "products_table (db ?pt')
                = filter (\<lambda>q. ID q \<noteq> ID product) (products_table (db pt)) @ [product]"
    and ent: "price_entries_table (db ?pt') = price_entries_table (db pt)"
    by (simp_all add: AddProduct_def InsertProduct_def)
  have ids: "set (map ID (products_table (db ?pt')))
               = insert (ID product) (set (map ID (products_table (db pt))))"
    unfolding tbl by auto
  from assms have old: "distinct (map fst (products pt))"
    "\<forall>(k, p)\<in>set (products pt). ID p = k \<and> k \<in> set (map ID (products_table (db pt)))"
    "\<forall>e\<in>set (price_entries_table (db pt)).
        ProductID e \<in> set (map ID (products_table (db pt)))"
    by (auto simp: consistent_def registry_ok_def)
  have 1: "distinct (map fst (products ?pt'))"
    unfolding reg using old(1) by (rule distinct_update)
  have 2: "\<forall>(k, p)\<in>set (products ?pt').
             ID p = k \<and> k \<in> set (map ID (products_table (db ?pt')))"
    unfolding reg ids using old(2) set_registry_update [of "ID product" product "products pt"]
    by auto
  have 3: "\<forall>e\<in>set (price_entries_table (db ?pt')).
             ProductID e \<in> set (map ID (products_table (db ?pt')))"
    unfolding ent ids using old(3) by auto
  from 1 2 3 show ?thesis by (auto simp: consistent_def registry_ok_def)
qed

text \<open>A round stores entries of products of its snapshot only.\<close>

lemma round_consistent:
  assumes "consistent pt" "trackAllProducts pt snapshot schedule = Some (pt', evs)"
  shows "consistent pt'"
proof -
  note r = assms(2)
  from assms(1) have old: "registry_ok pt"
    "\<forall>(k, p)\<in>set (products pt). ID p = k \<and> k \<in> set (map ID (products_table (db pt)))"
    "\<forall>e\<in>set (price_entries_table (db pt)).
        ProductID e \<in> set (map ID (products_table (db pt)))"
    by (auto simp: consistent_def registry_ok_def)
  from new_rows_forwarded [OF r] obtain new where new:
    "price_entries_table (db pt') = price_entries_table (db pt) @ new"
    "\<forall>row\<in>set new. \<exists>e\<in>set (forwarded evs). row_data row = row_data e" by blast
  have snap: "set snapshot = snd ` set (products pt)"
    using round_snapshot [OF r] mset_eq_setD [of snapshot "map snd (products pt)"]
    by (simp add: is_snapshot_def)
  have "ProductID row \<in> set (map ID (products_table (db pt)))" if "row \<in> set new" for row
  proof -
    from that new(2) obtain e where e: "e \<in> set (forwarded evs)" "row_data row = row_data e"
      by blast
    from accepted_fetched [OF forwarded_accepted [OF r e(1)]]
    have "ProductID e \<in> ID ` set (fetched evs)" by (simp add: measurement_def)
    also have "set (fetched evs) = set snapshot"
      using round_summary(1) [OF r] by (rule mset_eq_setD)
    finally obtain kp where "kp \<in> set (products pt)" "ProductID e = ID (snd kp)"
      unfolding snap by auto
    with old(2) have "ProductID e \<in> set (map ID (products_table (db pt)))" by auto
    with e(2) show ?thesis by (simp add: row_data_def)
  qed
  with old(3) new(1) have 3: "\<forall>e\<in>set (price_entries_table (db pt')).
      ProductID e \<in> set (map ID (products_table (db pt)))" by auto
  from old 3 round_summary(5,7) [OF r] show ?thesis
    by (auto simp: consistent_def registry_ok_def)
qed

text \<open>
  In every tracker the program reaches, the registry is a map keyed by product id, every
  registered product has its row in \<^verbatim>\<open>products\<close>, and the product id of every row of
  \<^verbatim>\<open>price_entries\<close> has a row in \<^verbatim>\<open>products\<close>. This is kept by the tracker's own calls
  (rounds insert entries of registered products only, and no row of \<^verbatim>\<open>products\<close> is
  ever deleted), not by a check of the store.
\<close>

lemma reachable_consistent: "reachable pt \<Longrightarrow> consistent pt"
proof (induction rule: reachable.induct)
  case (created io)
  show ?case by (rule NewPriceTracker_consistent) (simp add: createTables_def)
next
  case (added pt product io)
  from AddProduct_consistent [OF added.IH] show ?case .
next
  case (tracked pt snapshot schedule pt' evs)
  from round_consistent [OF tracked.IH tracked.hyps(2)] show ?case .
next
  case (restarted pt io)
  then have "\<forall>e\<in>set (price_entries_table (db pt)).
      ProductID e \<in> set (map ID (products_table (db pt)))"
    by (simp add: consistent_def)
  from NewPriceTracker_consistent [OF this] show ?case .
qed

lemma sample_tracker_reachable: "reachable sample_tracker"
  unfolding sample_tracker_def by (intro reachable.intros)

end
